theory Spec2Isabelle
  imports Main
begin

section \<open>Pages of the B+ tree\<close>

text \<open>
  The tree of \<^verbatim>\<open>src/index/b_plus_tree.cpp\<close> lives in pages of a buffer pool. A pointer to a
  page is modelled by the page's id, and \<^verbatim>\<open>GetPageId()\<close> of a page is that id. Keys are the
  integers a \<^verbatim>\<open>GenericKey\<close> is set from, compared by the comparator as integers; a value is
  the integer of a \<^verbatim>\<open>RID\<close>.
\<close>

type_synonym page_id = int
type_synonym key = int
type_synonym rid = int

definition INVALID_PAGE_ID :: page_id where
  "INVALID_PAGE_ID = - 1"

definition HEADER_PAGE_ID :: page_id where
  "HEADER_PAGE_ID = 0"

datatype payload =
    Leaf "(key \<times> rid) list" page_id
  | Internal "(key \<times> page_id) list"

record tree_page =
  parent_page_id :: page_id
  max_size :: int
  body :: payload

definition IsLeafPage :: "tree_page \<Rightarrow> bool" where
  "IsLeafPage p = (case body p of Leaf _ _ \<Rightarrow> True | Internal _ \<Rightarrow> False)"

definition IsRootPage :: "tree_page \<Rightarrow> bool" where
  "IsRootPage p = (parent_page_id p = INVALID_PAGE_ID)"

definition GetSize :: "tree_page \<Rightarrow> int" where
  "GetSize p = (case body p of Leaf es _ \<Rightarrow> int (length es) | Internal es \<Rightarrow> int (length es))"

definition GetMaxSize :: "tree_page \<Rightarrow> int" where
  "GetMaxSize p = max_size p"

text \<open>
  Modelled from the spec: \<^verbatim>\<open>BPlusTreePage::GetMinSize\<close> is not in the source file. The spec
  gives \<open>min_size = \<lceil>max_size / 2\<rceil>\<close> for leaf and internal pages and exempts the root from
  it. For the root the value is the one \<^verbatim>\<open>AdjustRoot\<close> relies on: its test
  \<^verbatim>\<open>GetSize() < GetMinSize()\<close> of line 438 is \<^verbatim>\<open>case 2: when you delete the last element in
  whole b+ tree\<close>, so a root leaf has minimum size 1; its \<^verbatim>\<open>case 1\<close>, an internal root with one
  last child, is reached through \<^verbatim>\<open>CoalesceOrRedistribute\<close> only below the minimum size, so an
  internal root has minimum size 2.
\<close>

definition GetMinSize :: "tree_page \<Rightarrow> int" where
  "GetMinSize p =
     (if IsRootPage p then (if IsLeafPage p then 1 else 2) else (max_size p + 1) div 2)"

definition leaf_entries :: "tree_page \<Rightarrow> (key \<times> rid) list" where
  "leaf_entries p = (case body p of Leaf es _ \<Rightarrow> es | Internal _ \<Rightarrow> [])"

definition internal_entries :: "tree_page \<Rightarrow> (key \<times> page_id) list" where
  "internal_entries p = (case body p of Leaf _ _ \<Rightarrow> [] | Internal es \<Rightarrow> es)"

section \<open>The tree object, the buffer pool and the header page\<close>

text \<open>
  What stops a method: \<^verbatim>\<open>std::bad_alloc\<close>, the use of a null pointer, a failed
  \<^verbatim>\<open>assert\<close> (with the line of the assertion in the source file, 0 for the assertion the
  spec places in the draining of the work set), a read outside a page's entries, a child
  that is not in its parent, and the bound on the rounds of a loop or recursion.
\<close>

datatype error =
  BadAlloc | NullPointer | AssertionFailed nat | OutOfBounds | NoSuchChild | OutOfFuel

datatype header_call = InsertRecord page_id | UpdateRecord page_id

text \<open>
  The state the tree's methods read and write: the member \<^verbatim>\<open>root_page_id_\<close>; the buffer
  pool (the pages it holds, the pin count of each page id, the ids \<^verbatim>\<open>NewPage\<close> will hand out
  next, the number of latches held on each page); the calls made on the header page for this
  index name, oldest first; the caller's transaction object (its page set in the order the
  pages were added, and its deleted page set); and the sizes \<^verbatim>\<open>Init\<close> gives to new pages.
\<close>

record tree =
  root_page_id :: page_id
  pages :: "page_id \<rightharpoonup> tree_page"
  pins :: "page_id \<Rightarrow> nat"
  fresh :: "page_id list"
  latch :: "page_id \<Rightarrow> nat"
  header :: "header_call list"
  page_set :: "page_id list"
  deleted_page_set :: "page_id set"
  leaf_max_size :: int
  internal_max_size :: int

definition IsEmpty :: "tree \<Rightarrow> bool" where
  "IsEmpty st = (root_page_id st = INVALID_PAGE_ID)"

text \<open>
  Modelled from the spec: the buffer pool manager is an external collaborator with
  \<^verbatim>\<open>new_page\<close>, \<^verbatim>\<open>fetch_page\<close> (increments the pin), \<^verbatim>\<open>unpin_page\<close> and \<^verbatim>\<open>delete_page\<close>.
  \<^verbatim>\<open>NewPage\<close> returns no page when the pool has none left. A page that is not in the pool
  cannot be fetched. The dirty flag of \<^verbatim>\<open>UnpinPage\<close> is not tracked. \<^verbatim>\<open>DeletePage\<close> refuses
  a page that is still pinned.
\<close>

definition pin :: "page_id \<Rightarrow> tree \<Rightarrow> tree" where
  "pin pid st = st\<lparr>pins := (pins st)(pid := pins st pid + 1)\<rparr>"

definition NewPage :: "tree \<Rightarrow> page_id option \<times> tree" where
  "NewPage st =
     (case fresh st of
        [] \<Rightarrow> (None, st)
      | pid # rest \<Rightarrow> (Some pid, st\<lparr>fresh := rest, pins := (pins st)(pid := 1)\<rparr>))"

definition FetchPage :: "page_id \<Rightarrow> tree \<Rightarrow> tree_page option \<times> tree" where
  "FetchPage pid st =
     (case pages st pid of
        None \<Rightarrow> (None, st)
      | Some p \<Rightarrow> (Some p, pin pid st))"

definition UnpinPage :: "page_id \<Rightarrow> bool \<Rightarrow> tree \<Rightarrow> tree" where
  "UnpinPage pid is_dirty st = st\<lparr>pins := (pins st)(pid := pins st pid - 1)\<rparr>"

definition DeletePage :: "page_id \<Rightarrow> tree \<Rightarrow> bool \<times> tree" where
  "DeletePage pid st =
     (if pins st pid = 0 then (True, st\<lparr>pages := (pages st)(pid := None)\<rparr>)
      else (False, st))"

text \<open>
  Modelled from the spec: \<^verbatim>\<open>GetPage(page_id)\<close> is declared in the header file, which is not
  in the source. The callers unpin what it returns, so it is a \<^verbatim>\<open>fetch_page\<close> followed by a
  cast of the page's bytes.
\<close>

definition GetPage :: "page_id \<Rightarrow> tree \<Rightarrow> tree_page option \<times> tree" where
  "GetPage pid st = FetchPage pid st"

definition SetParentPageId :: "page_id \<Rightarrow> page_id \<Rightarrow> tree \<Rightarrow> tree" where
  "SetParentPageId pid parent st =
     (case pages st pid of
        None \<Rightarrow> st
      | Some p \<Rightarrow> st\<lparr>pages := (pages st)(pid \<mapsto> p\<lparr>parent_page_id := parent\<rparr>)\<rparr>)"

text \<open>
  \<^verbatim>\<open>UpdateRootPageId\<close>: fetch the header page, insert or update the record of this index
  with the current root page id, unpin the header page.
\<close>

definition UpdateRootPageId :: "bool \<Rightarrow> tree \<Rightarrow> tree" where
  "UpdateRootPageId insert_record st =
     (let st1 = pin HEADER_PAGE_ID st;
          st2 = st1\<lparr>header := header st1 @
                  [if insert_record then InsertRecord (root_page_id st1)
                   else UpdateRecord (root_page_id st1)]\<rparr>
      in UnpinPage HEADER_PAGE_ID True st2)"

section \<open>AdjustRoot\<close>

text \<open>
  \<^verbatim>\<open>AdjustRoot(old_root_node)\<close>, lines 436 to 457. The argument is the id of the old root,
  a page the caller holds.
\<close>

definition AdjustRoot :: "page_id \<Rightarrow> tree \<Rightarrow> error + (bool \<times> tree)" where
  "AdjustRoot old_root_node st =
     (case pages st old_root_node of
        None \<Rightarrow> Inl NullPointer
      | Some r \<Rightarrow>
          if \<not> IsRootPage r then Inl (AssertionFailed 437)
          else if IsLeafPage r \<and> GetSize r < GetMinSize r then
            Inr (True, UpdateRootPageId False (st\<lparr>root_page_id := INVALID_PAGE_ID\<rparr>))
          else if \<not> IsLeafPage r \<and> GetSize r = 1 then
            (case internal_entries r of
               [] \<Rightarrow> Inl OutOfBounds
             | (k0, child) # rest \<Rightarrow>
                 (case GetPage child st of
                    (None, st1) \<Rightarrow> Inl NullPointer
                  | (Some newRoot, st1) \<Rightarrow>
                      let st2 = st1\<lparr>root_page_id := child\<rparr>;
                          st3 = SetParentPageId child INVALID_PAGE_ID st2;
                          st4 = UpdateRootPageId False st3
                      in Inr (True, UnpinPage child True st4)))
          else Inr (False, st))"

section \<open>The transaction's work set\<close>

text \<open>
  Modelled from the spec: \<^verbatim>\<open>lockFor\<close>, \<^verbatim>\<open>unlockFor\<close> and \<^verbatim>\<open>clearTxnWorkSet\<close> are declared
  in the header file, which is not in the source. A latch is taken on a pinned page and
  counted per page. The work set is drained first in, first out: each page is unlatched and
  unpinned, a page marked for deletion is then deleted and the deletion is asserted to
  succeed; both sets of the transaction are empty afterwards.
\<close>

definition lockFor :: "int \<Rightarrow> page_id \<Rightarrow> tree \<Rightarrow> tree" where
  "lockFor findInsertDelete pid st = st\<lparr>latch := (latch st)(pid := latch st pid + 1)\<rparr>"

definition unlockFor :: "int \<Rightarrow> page_id \<Rightarrow> tree \<Rightarrow> tree" where
  "unlockFor findInsertDelete pid st = st\<lparr>latch := (latch st)(pid := latch st pid - 1)\<rparr>"

definition AddIntoPageSet :: "page_id \<Rightarrow> tree \<Rightarrow> tree" where
  "AddIntoPageSet pid st = st\<lparr>page_set := page_set st @ [pid]\<rparr>"

fun release_pages :: "int \<Rightarrow> bool \<Rightarrow> page_id list \<Rightarrow> tree \<Rightarrow> error + tree" where
  "release_pages m d [] st = Inr st"
| "release_pages m d (p # ps) st =
     (let st1 = UnpinPage p d (unlockFor m p st) in
      if p \<in> deleted_page_set st1 then
        (case DeletePage p st1 of
           (False, st2) \<Rightarrow> Inl (AssertionFailed 0)
         | (True, st2) \<Rightarrow> release_pages m d ps st2)
      else release_pages m d ps st1)"

definition clearTxnWorkSet :: "int \<Rightarrow> bool \<Rightarrow> tree \<Rightarrow> error + tree" where
  "clearTxnWorkSet findInsertDelete is_dirty st =
     (case release_pages findInsertDelete is_dirty (page_set st) st of
        Inl e \<Rightarrow> Inl e
      | Inr st1 \<Rightarrow> Inr (st1\<lparr>page_set := [], deleted_page_set := {}\<rparr>))"

section \<open>Crabbing descent: GetLeafPage\<close>

text \<open>
  Modelled from the spec: the internal page's \<^verbatim>\<open>Lookup\<close> is not in the source. It returns
  the greatest \<open>child_i\<close> such that \<open>i = 0\<close> or \<open>key_i\<close> lies below \<open>k\<close>; an internal page
  without entries has no child to return. The comparison follows the separator the source
  passes up when a leaf is split, the largest key of the left leaf (line 127): a key equal
  to \<open>key_i\<close> is stored under \<open>child_(i - 1)\<close>, and the descent for it goes there.
\<close>

fun internal_Lookup_from :: "key \<Rightarrow> page_id \<Rightarrow> (key \<times> page_id) list \<Rightarrow> page_id" where
  "internal_Lookup_from k c [] = c"
| "internal_Lookup_from k c ((ki, ci) # es) =
     internal_Lookup_from k (if ki < k then ci else c) es"

definition internal_Lookup :: "key \<Rightarrow> (key \<times> page_id) list \<Rightarrow> page_id option" where
  "internal_Lookup k es =
     (case es of [] \<Rightarrow> None | (k0, c0) # rest \<Rightarrow> Some (internal_Lookup_from k c0 rest))"

text \<open>
  The release rule of the descent, lines 638 to 659: what is done to the work set once the
  child \<open>btp\<close> is latched, before the child is added to the page set.
\<close>

definition release_rule :: "int \<Rightarrow> tree_page \<Rightarrow> tree \<Rightarrow> error + tree" where
  "release_rule findInsertDelete btp st =
     (if findInsertDelete = 0 then clearTxnWorkSet findInsertDelete False st
      else if findInsertDelete = 1 then
        (if GetMaxSize btp > GetSize btp then clearTxnWorkSet findInsertDelete False st
         else Inr st)
      else if findInsertDelete = 2 then
        (if GetMinSize btp < GetSize btp then clearTxnWorkSet findInsertDelete False st
         else Inr st)
      else Inl (AssertionFailed 658))"

text \<open>
  One round of the loop of lines 629 to 664, entered with \<open>page_id\<close> the id of the internal
  page \<open>btp\<close>. It returns the id of the child the descent moves to.
\<close>

definition GetLeafPage_step ::
  "key \<Rightarrow> bool \<Rightarrow> int \<Rightarrow> page_id \<Rightarrow> tree \<Rightarrow> error + (page_id \<times> tree)" where
  "GetLeafPage_step k transaction findInsertDelete page_id st =
     (case pages st page_id of
        None \<Rightarrow> Inl NullPointer
      | Some ip \<Rightarrow>
          (case internal_Lookup k (internal_entries ip) of
             None \<Rightarrow> Inl OutOfBounds
           | Some next \<Rightarrow>
               (case GetPage next st of
                  (None, st1) \<Rightarrow> Inl NullPointer
                | (Some btp, st1) \<Rightarrow>
                    if transaction then
                      (case release_rule findInsertDelete btp (lockFor findInsertDelete next st1) of
                         Inl e \<Rightarrow> Inl e
                       | Inr st2 \<Rightarrow> Inr (next, AddIntoPageSet next st2))
                    else Inr (next, UnpinPage page_id False st1))))"

fun GetLeafPage_loop ::
  "nat \<Rightarrow> key \<Rightarrow> bool \<Rightarrow> int \<Rightarrow> page_id \<Rightarrow> tree \<Rightarrow> error + (page_id \<times> tree)" where
  "GetLeafPage_loop 0 k transaction findInsertDelete page_id st = Inl OutOfFuel"
| "GetLeafPage_loop (Suc n) k transaction findInsertDelete page_id st =
     (case pages st page_id of
        None \<Rightarrow> Inl NullPointer
      | Some btp \<Rightarrow>
          if IsLeafPage btp then Inr (page_id, st)
          else
            (case GetLeafPage_step k transaction findInsertDelete page_id st of
               Inl e \<Rightarrow> Inl e
             | Inr (next, st1) \<Rightarrow> GetLeafPage_loop n k transaction findInsertDelete next st1))"

text \<open>
  \<^verbatim>\<open>GetLeafPage\<close>, lines 608 to 667. The result \<open>None\<close> is the null pointer returned for an
  empty tree. No other thread changes \<^verbatim>\<open>root_page_id_\<close> between its two reads, so the loop
  of lines 619 to 625 is not entered. The first argument bounds the rounds of the descent.
\<close>

definition GetLeafPage ::
  "nat \<Rightarrow> key \<Rightarrow> bool \<Rightarrow> int \<Rightarrow> tree \<Rightarrow> error + (page_id option \<times> tree)" where
  "GetLeafPage fuel k transaction findInsertDelete st =
     (if IsEmpty st then Inr (None, st)
      else if transaction \<and> \<not> (page_set st = [] \<and> deleted_page_set st = {})
        then Inl (AssertionFailed 613)
      else
        (case GetPage (root_page_id st) st of
           (None, st1) \<Rightarrow> Inl NullPointer
         | (Some btp, st1) \<Rightarrow>
             let st2 = (if transaction
                        then AddIntoPageSet (root_page_id st)
                               (lockFor findInsertDelete (root_page_id st) st1)
                        else st1)
             in (case GetLeafPage_loop fuel k transaction findInsertDelete (root_page_id st) st2 of
                   Inl e \<Rightarrow> Inl e
                 | Inr (leaf, st3) \<Rightarrow> Inr (Some leaf, st3))))"

section \<open>Search\<close>

text \<open>
  Modelled from the spec: the leaf page's \<^verbatim>\<open>Lookup\<close> and \<^verbatim>\<open>KeyIndex\<close> are not in the
  source. \<^verbatim>\<open>Lookup\<close> finds the value stored with the key, if any; \<^verbatim>\<open>KeyIndex\<close> is the first
  index whose key is at least \<open>k\<close>.
\<close>

definition leaf_Lookup :: "key \<Rightarrow> (key \<times> rid) list \<Rightarrow> rid option" where
  "leaf_Lookup k es = map_of es k"

definition leaf_KeyIndex :: "key \<Rightarrow> (key \<times> rid) list \<Rightarrow> int" where
  "leaf_KeyIndex k es = int (length (takeWhile (\<lambda>e. fst e < k) es))"

text \<open>
  \<^verbatim>\<open>GetValue\<close>, lines 37 to 52. The result is the returned flag with the value written to
  \<^verbatim>\<open>result[0]\<close>, if one was found.
\<close>

definition GetValue ::
  "nat \<Rightarrow> key \<Rightarrow> bool \<Rightarrow> tree \<Rightarrow> error + ((bool \<times> rid option) \<times> tree)" where
  "GetValue fuel k transaction st =
     (if transaction \<and> page_set st \<noteq> [] then Inl (AssertionFailed 41)
      else
        (case GetLeafPage fuel k transaction 0 st of
           Inl e \<Rightarrow> Inl e
         | Inr (None, st1) \<Rightarrow> Inl NullPointer
         | Inr (Some leaf, st1) \<Rightarrow>
             (case pages st1 leaf of
                None \<Rightarrow> Inl NullPointer
              | Some lp \<Rightarrow>
                  let found = leaf_Lookup k (leaf_entries lp) in
                  if transaction then
                    (case clearTxnWorkSet 0 False st1 of
                       Inl e \<Rightarrow> Inl e
                     | Inr st2 \<Rightarrow>
                         if page_set st2 \<noteq> [] then Inl (AssertionFailed 50)
                         else Inr ((found \<noteq> None, found), st2))
                  else Inr ((found \<noteq> None, found), UnpinPage leaf False st1))))"

section \<open>Iterators\<close>

text \<open>
  \<^verbatim>\<open>Begin()\<close>, lines 467 to 477: the loop follows the first child down to a leaf. The result
  is the page id and the index the iterator is built from.
\<close>

fun Begin_loop :: "nat \<Rightarrow> page_id \<Rightarrow> tree \<Rightarrow> error + (page_id \<times> tree)" where
  "Begin_loop 0 page_id st = Inl OutOfFuel"
| "Begin_loop (Suc n) page_id st =
     (case pages st page_id of
        None \<Rightarrow> Inl NullPointer
      | Some page \<Rightarrow>
          if IsLeafPage page then Inr (page_id, st)
          else
            (case internal_entries page of
               [] \<Rightarrow> Inl OutOfBounds
             | (k0, c0) # rest \<Rightarrow>
                 (case GetPage c0 st of
                    (None, st1) \<Rightarrow> Inl NullPointer
                  | (Some child, st1) \<Rightarrow> Begin_loop n c0 st1)))"

definition Begin :: "nat \<Rightarrow> tree \<Rightarrow> error + ((page_id \<times> int) \<times> tree)" where
  "Begin fuel st =
     (case GetPage (root_page_id st) st of
        (None, st1) \<Rightarrow> Inl NullPointer
      | (Some page, st1) \<Rightarrow>
          (case Begin_loop fuel (root_page_id st) st1 of
             Inl e \<Rightarrow> Inl e
           | Inr (leaf, st2) \<Rightarrow> Inr ((leaf, 0), st2)))"

text \<open>\<^verbatim>\<open>Begin(key)\<close>, lines 484 to 489.\<close>

definition Begin_at :: "nat \<Rightarrow> key \<Rightarrow> tree \<Rightarrow> error + ((page_id \<times> int) \<times> tree)" where
  "Begin_at fuel k st =
     (case GetLeafPage fuel k False 0 st of
        Inl e \<Rightarrow> Inl e
      | Inr (None, st1) \<Rightarrow> Inl NullPointer
      | Inr (Some leaf, st1) \<Rightarrow>
          (case pages st1 leaf of
             None \<Rightarrow> Inl NullPointer
           | Some lp \<Rightarrow>
               Inr ((leaf, leaf_KeyIndex k (leaf_entries lp)), UnpinPage leaf False st1)))"

section \<open>Insertion\<close>

text \<open>
  Modelled from the spec: the page classes are not in the source. \<^verbatim>\<open>Init\<close> makes an empty
  page of its kind with the given parent. The leaf's \<^verbatim>\<open>Insert\<close> inserts in key order and is
  a no-op when the key is already there. \<^verbatim>\<open>MoveHalfTo\<close> moves the upper half, the entries
  from index \<open>\<lceil>size / 2\<rceil>\<close> on, to the sibling; a leaf hands its next pointer to the sibling
  and points to the sibling, an internal page rewrites the parent of each moved child.
  \<^verbatim>\<open>KeyAt\<close> reads the key of an entry; an index outside the page has no key.
  \<^verbatim>\<open>PopulateNewRoot\<close> produces the two entries of a new root, the key of entry 0 being unused.
  \<^verbatim>\<open>InsertNodeAfter\<close> inserts the new entry immediately after the entry that references the
  old child; the spec gives no result when no entry references it.
\<close>

definition Init_leaf :: "page_id \<Rightarrow> page_id \<Rightarrow> tree \<Rightarrow> tree" where
  "Init_leaf pid parent st =
     st\<lparr>pages := (pages st)(pid \<mapsto>
          \<lparr>parent_page_id = parent, max_size = leaf_max_size st,
           body = Leaf [] INVALID_PAGE_ID\<rparr>)\<rparr>"

definition Init_internal :: "page_id \<Rightarrow> page_id \<Rightarrow> tree \<Rightarrow> tree" where
  "Init_internal pid parent st =
     st\<lparr>pages := (pages st)(pid \<mapsto>
          \<lparr>parent_page_id = parent, max_size = internal_max_size st,
           body = Internal []\<rparr>)\<rparr>"

definition leaf_Insert :: "key \<Rightarrow> rid \<Rightarrow> (key \<times> rid) list \<Rightarrow> (key \<times> rid) list" where
  "leaf_Insert k v es =
     (if leaf_Lookup k es \<noteq> None then es
      else takeWhile (\<lambda>e. fst e < k) es @ (k, v) # dropWhile (\<lambda>e. fst e < k) es)"

definition set_leaf_entries :: "page_id \<Rightarrow> (key \<times> rid) list \<Rightarrow> tree \<Rightarrow> tree" where
  "set_leaf_entries pid es st =
     (case pages st pid of
        None \<Rightarrow> st
      | Some p \<Rightarrow>
          (case body p of
             Leaf old nx \<Rightarrow> st\<lparr>pages := (pages st)(pid \<mapsto> p\<lparr>body := Leaf es nx\<rparr>)\<rparr>
           | Internal old \<Rightarrow> st))"

definition set_internal_entries :: "page_id \<Rightarrow> (key \<times> page_id) list \<Rightarrow> tree \<Rightarrow> tree" where
  "set_internal_entries pid es st =
     (case pages st pid of
        None \<Rightarrow> st
      | Some p \<Rightarrow>
          (case body p of
             Leaf old nx \<Rightarrow> st
           | Internal old \<Rightarrow> st\<lparr>pages := (pages st)(pid \<mapsto> p\<lparr>body := Internal es\<rparr>)\<rparr>))"

definition upper_half_from :: "'a list \<Rightarrow> nat" where
  "upper_half_from es = (length es + 1) div 2"

definition MoveHalfTo :: "page_id \<Rightarrow> page_id \<Rightarrow> tree \<Rightarrow> tree" where
  "MoveHalfTo node sibling st =
     (case (pages st node, pages st sibling) of
        (Some n, Some s) \<Rightarrow>
          (case body n of
             Leaf es nx \<Rightarrow>
               st\<lparr>pages := (pages st)
                    (node \<mapsto> n\<lparr>body := Leaf (take (upper_half_from es) es) sibling\<rparr>,
                     sibling \<mapsto> s\<lparr>body := Leaf (leaf_entries s @ drop (upper_half_from es) es) nx\<rparr>)\<rparr>
           | Internal es \<Rightarrow>
               fold (\<lambda>child. SetParentPageId child sibling)
                 (map snd (drop (upper_half_from es) es))
                 (st\<lparr>pages := (pages st)
                    (node \<mapsto> n\<lparr>body := Internal (take (upper_half_from es) es)\<rparr>,
                     sibling \<mapsto> s\<lparr>body := Internal (internal_entries s @ drop (upper_half_from es) es)\<rparr>)\<rparr>))
      | _ \<Rightarrow> st)"

definition page_keys :: "tree_page \<Rightarrow> key list" where
  "page_keys p = (case body p of Leaf es nx \<Rightarrow> map fst es | Internal es \<Rightarrow> map fst es)"

definition KeyAt :: "tree_page \<Rightarrow> int \<Rightarrow> key option" where
  "KeyAt p i = (if 0 \<le> i \<and> i < GetSize p then Some (page_keys p ! nat i) else None)"

definition PopulateNewRoot :: "page_id \<Rightarrow> page_id \<Rightarrow> key \<Rightarrow> page_id \<Rightarrow> tree \<Rightarrow> tree" where
  "PopulateNewRoot pid old_value new_key new_value st =
     set_internal_entries pid [(0, old_value), (new_key, new_value)] st"

fun insert_node_after ::
  "page_id \<Rightarrow> key \<times> page_id \<Rightarrow> (key \<times> page_id) list \<Rightarrow> (key \<times> page_id) list option" where
  "insert_node_after old_value e [] = None"
| "insert_node_after old_value e (x # xs) =
     (if snd x = old_value then Some (x # e # xs)
      else map_option ((#) x) (insert_node_after old_value e xs))"

definition InsertNodeAfter ::
  "page_id \<Rightarrow> page_id \<Rightarrow> key \<Rightarrow> page_id \<Rightarrow> tree \<Rightarrow> error + tree" where
  "InsertNodeAfter pid old_value new_key new_value st =
     (case pages st pid of
        None \<Rightarrow> Inl NullPointer
      | Some ip \<Rightarrow>
          (case insert_node_after old_value (new_key, new_value) (internal_entries ip) of
             None \<Rightarrow> Inl NoSuchChild
           | Some es \<Rightarrow> Inr (set_internal_entries pid es st)))"

text \<open>\<^verbatim>\<open>Split\<close>, lines 148 to 163: the new page has the kind and the parent of \<open>node\<close>.\<close>

definition Split :: "page_id \<Rightarrow> tree \<Rightarrow> error + (page_id \<times> tree)" where
  "Split node st =
     (case NewPage st of
        (None, st1) \<Rightarrow> Inl BadAlloc
      | (Some pid, st1) \<Rightarrow>
          (case pages st1 node of
             None \<Rightarrow> Inl NullPointer
           | Some n \<Rightarrow>
               let st2 = (if IsLeafPage n then Init_leaf pid (parent_page_id n) st1
                          else Init_internal pid (parent_page_id n) st1)
               in Inr (pid, MoveHalfTo node pid st2)))"

text \<open>
  \<^verbatim>\<open>InsertIntoParent\<close>, lines 174 to 212. The parent is fetched by a scoped pointer and the
  new page of a split is held by a guard; both unpin when the call returns. The first
  argument bounds the depth of the recursion.
\<close>

fun InsertIntoParent :: "nat \<Rightarrow> page_id \<Rightarrow> key \<Rightarrow> page_id \<Rightarrow> tree \<Rightarrow> error + tree" where
  "InsertIntoParent 0 old_node k new_node st = Inl OutOfFuel"
| "InsertIntoParent (Suc n) old_node k new_node st =
     (case pages st old_node of
        None \<Rightarrow> Inl NullPointer
      | Some old \<Rightarrow>
          if parent_page_id old = INVALID_PAGE_ID then
            (case NewPage st of
               (None, st1) \<Rightarrow> Inl BadAlloc
             | (Some parentPageId, st1) \<Rightarrow>
                 let st2 = Init_internal parentPageId INVALID_PAGE_ID st1;
                     st3 = UpdateRootPageId False (st2\<lparr>root_page_id := parentPageId\<rparr>);
                     st4 = SetParentPageId new_node parentPageId
                             (SetParentPageId old_node parentPageId st3);
                     st5 = PopulateNewRoot parentPageId old_node k new_node st4
                 in Inr (UnpinPage parentPageId True st5))
          else
            (case FetchPage (parent_page_id old) st of
               (None, st1) \<Rightarrow> Inl NullPointer
             | (Some ip0, st1) \<Rightarrow>
                 (case InsertNodeAfter (parent_page_id old) old_node k new_node st1 of
                    Inl e \<Rightarrow> Inl e
                  | Inr st2 \<Rightarrow>
                      (case pages st2 (parent_page_id old) of
                         None \<Rightarrow> Inl NullPointer
                       | Some ip \<Rightarrow>
                           if GetSize ip > GetMaxSize ip then
                             (case Split (parent_page_id old) st2 of
                                Inl e \<Rightarrow> Inl e
                              | Inr (newlp, st3) \<Rightarrow>
                                  (case Option.bind (pages st3 newlp) (\<lambda>q. KeyAt q 0) of
                                     None \<Rightarrow> Inl OutOfBounds
                                   | Some k1 \<Rightarrow>
                                       (case InsertIntoParent n (parent_page_id old) k1 newlp st3 of
                                          Inl e \<Rightarrow> Inl e
                                        | Inr st4 \<Rightarrow>
                                            Inr (UnpinPage (parent_page_id old) True
                                                   (UnpinPage newlp True st4)))))
                           else Inr (UnpinPage (parent_page_id old) True st2)))))"

text \<open>
  Lines 122 to 130 of \<^verbatim>\<open>InsertIntoLeaf\<close>: the leaf \<open>lp\<close> has overflowed; it is split, the
  new leaf is inserted into the parent and unpinned.
\<close>

definition InsertIntoLeaf_split :: "nat \<Rightarrow> page_id \<Rightarrow> tree \<Rightarrow> error + tree" where
  "InsertIntoLeaf_split fuel lp st =
     (case Split lp st of
        Inl e \<Rightarrow> Inl e
      | Inr (newlp, st1) \<Rightarrow>
          (case Option.bind (pages st1 lp) (\<lambda>q. KeyAt q (GetSize q - 1)) of
             None \<Rightarrow> Inl OutOfBounds
           | Some k1 \<Rightarrow>
               (case InsertIntoParent fuel lp k1 newlp st1 of
                  Inl e \<Rightarrow> Inl e
                | Inr st2 \<Rightarrow> Inr (UnpinPage newlp True st2))))"

text \<open>\<^verbatim>\<open>InsertIntoLeaf\<close>, lines 112 to 139.\<close>

definition InsertIntoLeaf ::
  "nat \<Rightarrow> key \<Rightarrow> rid \<Rightarrow> bool \<Rightarrow> tree \<Rightarrow> error + (bool \<times> tree)" where
  "InsertIntoLeaf fuel k v transaction st =
     (if transaction \<and> page_set st \<noteq> [] then Inl (AssertionFailed 115)
      else
        (case GetLeafPage fuel k transaction 1 st of
           Inl e \<Rightarrow> Inl e
         | Inr (None, st1) \<Rightarrow> Inr (False, st1)
         | Inr (Some lp, st1) \<Rightarrow>
             (case pages st1 lp of
                None \<Rightarrow> Inl NullPointer
              | Some leaf \<Rightarrow>
                  let originalSize = GetSize leaf;
                      es = leaf_Insert k v (leaf_entries leaf);
                      newSize = int (length es);
                      st2 = set_leaf_entries lp es st1
                  in (case (if newSize > GetMaxSize leaf then InsertIntoLeaf_split fuel lp st2
                            else Inr st2) of
                        Inl e \<Rightarrow> Inl e
                      | Inr st3 \<Rightarrow>
                          (case (if transaction then clearTxnWorkSet 1 True st3
                                 else Inr (UnpinPage lp True st3)) of
                             Inl e \<Rightarrow> Inl e
                           | Inr st4 \<Rightarrow>
                               if transaction \<and> page_set st4 \<noteq> [] then Inl (AssertionFailed 137)
                               else Inr (originalSize \<noteq> newSize, st4))))))"

text \<open>
  \<^verbatim>\<open>StartNewTree\<close>, lines 83 to 102. The compare-and-set succeeds when \<^verbatim>\<open>root_page_id_\<close> is
  still \<^verbatim>\<open>INVALID_PAGE_ID\<close>; a state with another root is what the method sees when another
  thread has installed a root in the meantime.
\<close>

definition StartNewTree :: "nat \<Rightarrow> key \<Rightarrow> rid \<Rightarrow> bool \<Rightarrow> tree \<Rightarrow> error + tree" where
  "StartNewTree fuel k v transaction st =
     (case NewPage st of
        (None, st1) \<Rightarrow> Inl BadAlloc
      | (Some pid, st1) \<Rightarrow>
          let st2 = UnpinPage pid True (Init_leaf pid INVALID_PAGE_ID st1);
              st3 = (if root_page_id st2 = INVALID_PAGE_ID
                     then UpdateRootPageId True (st2\<lparr>root_page_id := pid\<rparr>)
                     else snd (DeletePage pid st2))
          in (case InsertIntoLeaf fuel k v transaction st3 of
                Inl e \<Rightarrow> Inl e
              | Inr (r, st4) \<Rightarrow> Inr st4))"

text \<open>\<^verbatim>\<open>Insert\<close>, lines 64 to 74.\<close>

definition Insert :: "nat \<Rightarrow> key \<Rightarrow> rid \<Rightarrow> bool \<Rightarrow> tree \<Rightarrow> error + (bool \<times> tree)" where
  "Insert fuel k v transaction st =
     (if IsEmpty st then
        (case StartNewTree fuel k v transaction st of
           Inl e \<Rightarrow> Inl e
         | Inr st1 \<Rightarrow> Inr (True, st1))
      else InsertIntoLeaf fuel k v transaction st)"

section \<open>Deletion\<close>

text \<open>
  Modelled from the spec: the page classes are not in the source. The leaf's
  \<^verbatim>\<open>RemoveAndDeleteRecord\<close> removes the key if present. The internal page's \<^verbatim>\<open>ValueIndex\<close> is
  the reverse lookup of a child (the spec gives no index for a child that is not there),
  \<^verbatim>\<open>ValueAt\<close> reads the child of an entry, \<^verbatim>\<open>Remove\<close> removes the entry at an index and
  \<^verbatim>\<open>SetValueAt\<close> rewrites the child of an entry.
\<close>

definition leaf_Remove :: "key \<Rightarrow> (key \<times> rid) list \<Rightarrow> (key \<times> rid) list" where
  "leaf_Remove k es = filter (\<lambda>e. fst e \<noteq> k) es"

fun value_index :: "page_id \<Rightarrow> (key \<times> page_id) list \<Rightarrow> int option" where
  "value_index v [] = None"
| "value_index v (e # es) =
     (if snd e = v then Some 0 else map_option (\<lambda>i. i + 1) (value_index v es))"

definition ValueIndex :: "tree_page \<Rightarrow> page_id \<Rightarrow> int option" where
  "ValueIndex p v = value_index v (internal_entries p)"

definition ValueAt :: "tree_page \<Rightarrow> int \<Rightarrow> page_id option" where
  "ValueAt p i =
     (if 0 \<le> i \<and> i < GetSize p then Some (snd (internal_entries p ! nat i)) else None)"

definition remove_at :: "int \<Rightarrow> 'a list \<Rightarrow> 'a list" where
  "remove_at i es = take (nat i) es @ drop (nat i + 1) es"

text \<open>
  Modelled from the spec: \<^verbatim>\<open>GetInternalPage(page_id)\<close> and \<^verbatim>\<open>GetPage(page_id, transaction,
  mode)\<close> are declared in the header file, which is not in the source. The first is a fetch
  with a cast. The second is a fetch which, under a transaction, latches the page and pushes
  it onto the page set, to be released when the work set is drained; the callers unpin its
  result themselves only when there is no transaction.
\<close>

definition GetInternalPage :: "page_id \<Rightarrow> tree \<Rightarrow> tree_page option \<times> tree" where
  "GetInternalPage pid st = FetchPage pid st"

definition GetPage_txn :: "page_id \<Rightarrow> bool \<Rightarrow> int \<Rightarrow> tree \<Rightarrow> tree_page option \<times> tree" where
  "GetPage_txn pid transaction findInsertDelete st =
     (case FetchPage pid st of
        (None, st1) \<Rightarrow> (None, st1)
      | (Some p, st1) \<Rightarrow>
          (Some p, if transaction then AddIntoPageSet pid (lockFor findInsertDelete pid st1)
                   else st1))"

text \<open>
  Modelled from the spec: the move operations of the page classes are not in the source.
  \<^verbatim>\<open>MoveAllTo\<close> appends all entries of the page to the sibling; for an internal page entry 0
  takes the separator key, read from the parent at the given index, and the children are
  given the sibling as parent; for a leaf the sibling takes over the next pointer.
  \<^verbatim>\<open>MoveFirstToEndOf\<close> and \<^verbatim>\<open>MoveLastToFrontOf\<close> rotate a single entry, give a moved child
  its new parent, and maintain the separator key in the parent: after
  \<^verbatim>\<open>MoveFirstToEndOf\<close> the key for the neighbour is the neighbour's first key; after
  \<^verbatim>\<open>MoveLastToFrontOf\<close> the key for the node is the node's first key (internal) or the
  neighbour's last key (leaf).
\<close>

definition set_parent_key :: "page_id \<Rightarrow> page_id \<Rightarrow> key option \<Rightarrow> tree \<Rightarrow> tree" where
  "set_parent_key parent child ko st =
     (case (pages st parent, ko) of
        (Some pp, Some k) \<Rightarrow>
          set_internal_entries parent
            (map (\<lambda>e. if snd e = child then (k, snd e) else e) (internal_entries pp)) st
      | _ \<Rightarrow> st)"

definition MoveAllTo :: "page_id \<Rightarrow> page_id \<Rightarrow> int \<Rightarrow> tree \<Rightarrow> error + tree" where
  "MoveAllTo node sibling index_in_parent st =
     (case (pages st node, pages st sibling) of
        (Some n, Some s) \<Rightarrow>
          (case body n of
             Leaf es nx \<Rightarrow>
               Inr (st\<lparr>pages := (pages st)
                     (node \<mapsto> n\<lparr>body := Leaf [] nx\<rparr>,
                      sibling \<mapsto> s\<lparr>body := Leaf (leaf_entries s @ es) nx\<rparr>)\<rparr>)
           | Internal es \<Rightarrow>
               (case Option.bind (pages st (parent_page_id n)) (\<lambda>pp. KeyAt pp index_in_parent) of
                  None \<Rightarrow> Inl OutOfBounds
                | Some middle_key \<Rightarrow>
                    Inr (fold (\<lambda>child. SetParentPageId child sibling) (map snd es)
                          (st\<lparr>pages := (pages st)
                             (node \<mapsto> n\<lparr>body := Internal []\<rparr>,
                              sibling \<mapsto> s\<lparr>body := Internal (internal_entries s @
                                 (case es of [] \<Rightarrow> [] | e0 # rest \<Rightarrow> (middle_key, snd e0) # rest))\<rparr>)\<rparr>))))
      | _ \<Rightarrow> Inl NullPointer)"

definition MoveFirstToEndOf :: "page_id \<Rightarrow> page_id \<Rightarrow> tree \<Rightarrow> error + tree" where
  "MoveFirstToEndOf neighbor node st =
     (case (pages st neighbor, pages st node) of
        (Some nb, Some n) \<Rightarrow>
          (case body nb of
             Leaf [] nx \<Rightarrow> Inl OutOfBounds
           | Leaf (e # rest) nx \<Rightarrow>
               Inr (set_parent_key (parent_page_id nb) neighbor
                      (case rest of [] \<Rightarrow> None | r # rs \<Rightarrow> Some (fst r))
                      (set_leaf_entries node (leaf_entries n @ [e])
                         (set_leaf_entries neighbor rest st)))
           | Internal [] \<Rightarrow> Inl OutOfBounds
           | Internal (e # rest) \<Rightarrow>
               Inr (set_parent_key (parent_page_id nb) neighbor
                      (case rest of [] \<Rightarrow> None | r # rs \<Rightarrow> Some (fst r))
                      (SetParentPageId (snd e) node
                         (set_internal_entries node (internal_entries n @ [e])
                            (set_internal_entries neighbor rest st)))))
      | _ \<Rightarrow> Inl NullPointer)"

definition MoveLastToFrontOf :: "page_id \<Rightarrow> page_id \<Rightarrow> int \<Rightarrow> tree \<Rightarrow> error + tree" where
  "MoveLastToFrontOf neighbor node parent_index st =
     (case (pages st neighbor, pages st node) of
        (Some nb, Some n) \<Rightarrow>
          (case body nb of
             Leaf es nx \<Rightarrow>
               if es = [] then Inl OutOfBounds
               else
                 Inr (set_parent_key (parent_page_id n) node
                        (if butlast es = [] then None else Some (fst (last (butlast es))))
                        (set_leaf_entries node (last es # leaf_entries n)
                           (set_leaf_entries neighbor (butlast es) st)))
           | Internal es \<Rightarrow>
               if es = [] then Inl OutOfBounds
               else
                 Inr (set_parent_key (parent_page_id n) node (Some (fst (last es)))
                        (SetParentPageId (snd (last es)) node
                           (set_internal_entries node (last es # internal_entries n)
                              (set_internal_entries neighbor (butlast es) st)))))
      | _ \<Rightarrow> Inl NullPointer)"

text \<open>\<^verbatim>\<open>Redistribute\<close>, lines 407 to 424.\<close>

definition Redistribute :: "page_id \<Rightarrow> page_id \<Rightarrow> int \<Rightarrow> tree \<Rightarrow> error + tree" where
  "Redistribute neighbor_node node index st =
     (if \<not> (index = 0 \<or> index = 1) then Inl (AssertionFailed 410)
      else if index = 0 then MoveFirstToEndOf neighbor_node node st
      else MoveLastToFrontOf neighbor_node node index st)"

text \<open>
  \<^verbatim>\<open>Coalesce\<close>, lines 371 to 396; \<open>parent\<close> is the id of the parent page of \<open>node\<close>. The
  result is the flag the method returns, which its caller does not use.
\<close>

definition parent_Remove :: "page_id \<Rightarrow> page_id \<Rightarrow> tree \<Rightarrow> error + tree" where
  "parent_Remove parent child st =
     (case pages st parent of
        None \<Rightarrow> Inl NullPointer
      | Some pp \<Rightarrow>
          (case ValueIndex pp child of
             None \<Rightarrow> Inl NoSuchChild
           | Some i \<Rightarrow> Inr (set_internal_entries parent (remove_at i (internal_entries pp)) st)))"

definition parent_SetValueAt :: "page_id \<Rightarrow> page_id \<Rightarrow> page_id \<Rightarrow> tree \<Rightarrow> error + tree" where
  "parent_SetValueAt parent child v st =
     (case pages st parent of
        None \<Rightarrow> Inl NullPointer
      | Some pp \<Rightarrow>
          (case ValueIndex pp child of
             None \<Rightarrow> Inl NoSuchChild
           | Some i \<Rightarrow>
               Inr (set_internal_entries parent
                      ((internal_entries pp)[nat i := (fst (internal_entries pp ! nat i), v)]) st)))"

definition Coalesce ::
  "page_id \<Rightarrow> page_id \<Rightarrow> page_id \<Rightarrow> int \<Rightarrow> tree \<Rightarrow> error + (bool \<times> tree)" where
  "Coalesce neighbor_node node parent index st =
     (if \<not> (index = 0 \<or> index = 1) then Inl (AssertionFailed 377)
      else
        (case pages st parent of
           None \<Rightarrow> Inl NullPointer
         | Some pp \<Rightarrow>
             (case (if index = 0 then
                      (case ValueIndex pp node of
                         None \<Rightarrow> Inl NoSuchChild
                       | Some i \<Rightarrow>
                           (case MoveAllTo node neighbor_node i st of
                              Inl e \<Rightarrow> Inl e
                            | Inr st1 \<Rightarrow> parent_Remove parent node st1))
                    else
                      (case ValueIndex pp neighbor_node of
                         None \<Rightarrow> Inl NoSuchChild
                       | Some i \<Rightarrow>
                           (case MoveAllTo node neighbor_node i st of
                              Inl e \<Rightarrow> Inl e
                            | Inr st1 \<Rightarrow>
                                (case parent_Remove parent neighbor_node st1 of
                                   Inl e \<Rightarrow> Inl e
                                 | Inr st2 \<Rightarrow> parent_SetValueAt parent node neighbor_node st2)))) of
                Inl e \<Rightarrow> Inl e
              | Inr st3 \<Rightarrow>
                  (case pages st3 parent of
                     None \<Rightarrow> Inl NullPointer
                   | Some pp3 \<Rightarrow> Inr (GetSize pp3 < GetMinSize pp3, st3)))))"

text \<open>
  The look-ahead of \<^verbatim>\<open>CoalesceOrRedistribute\<close> at the left sibling, lines 287 to 305, and at
  the right sibling, lines 307 to 324; \<open>parent\<close> is the id of the fetched parent page and
  \<open>idx\<close> the index of \<open>node\<close> in it. \<open>Inl\<close> is the value the method returns from inside the
  block; \<open>Inr\<close> carries the sibling pointer with which the method goes on.
\<close>

definition look_left ::
  "page_id \<Rightarrow> page_id \<Rightarrow> int \<Rightarrow> bool \<Rightarrow> tree \<Rightarrow>
     error + ((bool \<times> tree) + (page_id option \<times> tree))" where
  "look_left node parent idx transaction st =
     (if idx - 1 \<ge> 0 then
        (case Option.bind (pages st parent) (\<lambda>pp. ValueAt pp (idx - 1)) of
           None \<Rightarrow> Inl OutOfBounds
         | Some leftSiblingPageId \<Rightarrow>
             (case GetPage_txn leftSiblingPageId transaction 2 st of
                (None, st1) \<Rightarrow> Inl (AssertionFailed 291)
              | (Some leftSibling, st1) \<Rightarrow>
                  if GetSize leftSibling > GetMinSize leftSibling then
                    (case Redistribute leftSiblingPageId node 1 st1 of
                       Inl e \<Rightarrow> Inl e
                     | Inr st2 \<Rightarrow>
                         Inr (Inl (False,
                           UnpinPage parent True
                             (if \<not> transaction then UnpinPage leftSiblingPageId True st2
                              else st2))))
                  else Inr (Inr (Some leftSiblingPageId, st1))))
      else Inr (Inr (None, st)))"

definition look_right ::
  "page_id \<Rightarrow> page_id \<Rightarrow> int \<Rightarrow> page_id option \<Rightarrow> bool \<Rightarrow> tree \<Rightarrow>
     error + ((bool \<times> tree) + (page_id option \<times> tree))" where
  "look_right node parent idx leftSibling transaction st =
     (case pages st parent of
        None \<Rightarrow> Inl NullPointer
      | Some pp \<Rightarrow>
          if idx + 1 < GetSize pp then
            (case ValueAt pp (idx + 1) of
               None \<Rightarrow> Inl OutOfBounds
             | Some rightSiblingPageId \<Rightarrow>
                 (case GetPage_txn rightSiblingPageId transaction 2 st of
                    (None, st1) \<Rightarrow> Inl (AssertionFailed 311)
                  | (Some rightSibling, st1) \<Rightarrow>
                      if GetSize rightSibling > GetMinSize rightSibling then
                        (case Redistribute rightSiblingPageId node 0 st1 of
                           Inl e \<Rightarrow> Inl e
                         | Inr st2 \<Rightarrow>
                             Inr (Inl (False,
                               UnpinPage parent True
                                 (if \<not> transaction then
                                    (case leftSibling of
                                       None \<Rightarrow> UnpinPage rightSiblingPageId True st2
                                     | Some leftSiblingPageId \<Rightarrow>
                                         UnpinPage leftSiblingPageId False
                                           (UnpinPage rightSiblingPageId True st2))
                                  else st2))))
                      else Inr (Inr (Some rightSiblingPageId, st1))))
          else Inr (Inr (None, st)))"

text \<open>
  Lines 326 to 344: the merge with the left sibling if there is one, else with the right
  one, and the unpins that follow when there is no transaction.
\<close>

definition merge_siblings ::
  "page_id \<Rightarrow> page_id \<Rightarrow> page_id option \<Rightarrow> page_id option \<Rightarrow> bool \<Rightarrow> tree \<Rightarrow> error + tree" where
  "merge_siblings node parent leftSibling rightSibling transaction st =
     (case leftSibling of
        Some leftSiblingPageId \<Rightarrow>
          (case Coalesce leftSiblingPageId node parent 0 st of
             Inl e \<Rightarrow> Inl e
           | Inr (r, st1) \<Rightarrow>
               Inr (if \<not> transaction then
                      (case rightSibling of
                         None \<Rightarrow> UnpinPage leftSiblingPageId True st1
                       | Some rightSiblingPageId \<Rightarrow>
                           UnpinPage rightSiblingPageId False
                             (UnpinPage leftSiblingPageId True st1))
                    else st1))
      | None \<Rightarrow>
          (case rightSibling of
             None \<Rightarrow> Inl (AssertionFailed 326)
           | Some rightSiblingPageId \<Rightarrow>
               (case Coalesce rightSiblingPageId node parent 1 st of
                  Inl e \<Rightarrow> Inl e
                | Inr (r, st1) \<Rightarrow>
                    Inr (if \<not> transaction then UnpinPage rightSiblingPageId True st1
                         else st1))))"

text \<open>
  \<^verbatim>\<open>CoalesceOrRedistribute\<close>, lines 265 to 357. The first argument bounds the depth of the
  recursion on the parent.
\<close>

fun CoalesceOrRedistribute ::
  "nat \<Rightarrow> page_id \<Rightarrow> bool \<Rightarrow> tree \<Rightarrow> error + (bool \<times> tree)" where
  "CoalesceOrRedistribute 0 node transaction st = Inl OutOfFuel"
| "CoalesceOrRedistribute (Suc n) node transaction st =
     (case pages st node of
        None \<Rightarrow> Inl NullPointer
      | Some nd \<Rightarrow>
          if GetSize nd \<ge> GetMinSize nd then Inr (False, st)
          else if parent_page_id nd = INVALID_PAGE_ID then AdjustRoot node st
          else
            (case GetInternalPage (parent_page_id nd) st of
               (None, st1) \<Rightarrow> Inl NullPointer
             | (Some parent, st1) \<Rightarrow>
                 (case ValueIndex parent node of
                    None \<Rightarrow> Inl NoSuchChild
                  | Some idx \<Rightarrow>
                      (case look_left node (parent_page_id nd) idx transaction st1 of
                         Inl e \<Rightarrow> Inl e
                       | Inr (Inl r) \<Rightarrow> Inr r
                       | Inr (Inr (leftSibling, st2)) \<Rightarrow>
                           (case look_right node (parent_page_id nd) idx leftSibling transaction st2 of
                              Inl e \<Rightarrow> Inl e
                            | Inr (Inl r) \<Rightarrow> Inr r
                            | Inr (Inr (rightSibling, st3)) \<Rightarrow>
                                (case merge_siblings node (parent_page_id nd) leftSibling
                                        rightSibling transaction st3 of
                                   Inl e \<Rightarrow> Inl e
                                 | Inr st4 \<Rightarrow>
                                     (case CoalesceOrRedistribute n (parent_page_id nd) transaction st4 of
                                        Inl e \<Rightarrow> Inl e
                                      | Inr (del, st5) \<Rightarrow>
                                          let st6 = UnpinPage (parent_page_id nd) True st5 in
                                          if del then
                                            (if transaction then
                                               Inr (True, st6\<lparr>deleted_page_set :=
                                                      insert (parent_page_id nd) (deleted_page_set st6)\<rparr>)
                                             else
                                               (case DeletePage (parent_page_id nd) st6 of
                                                  (False, st7) \<Rightarrow> Inl (AssertionFailed 353)
                                                | (True, st7) \<Rightarrow> Inr (True, st7)))
                                          else Inr (True, st6))))))))"

text \<open>\<^verbatim>\<open>Remove\<close>, lines 224 to 256.\<close>

definition Remove :: "nat \<Rightarrow> key \<Rightarrow> bool \<Rightarrow> tree \<Rightarrow> error + tree" where
  "Remove fuel k transaction st =
     (if IsEmpty st then Inr st
      else if transaction \<and> page_set st \<noteq> [] then Inl (AssertionFailed 230)
      else
        (case GetLeafPage fuel k transaction 2 st of
           Inl e \<Rightarrow> Inl e
         | Inr (None, st1) \<Rightarrow> Inl (AssertionFailed 232)
         | Inr (Some lp, st1) \<Rightarrow>
             (case pages st1 lp of
                None \<Rightarrow> Inl NullPointer
              | Some leaf \<Rightarrow>
                  let es = leaf_Remove k (leaf_entries leaf);
                      sizeAfterRemove = int (length es);
                      st2 = set_leaf_entries lp es st1
                  in (case (if sizeAfterRemove < GetMinSize leaf
                            then CoalesceOrRedistribute fuel lp transaction st2
                            else Inr (False, st2)) of
                        Inl e \<Rightarrow> Inl e
                      | Inr (shouldRemovePage, st3) \<Rightarrow>
                          if shouldRemovePage \<and> \<not> transaction then
                            (case DeletePage lp (UnpinPage lp True st3) of
                               (False, st4) \<Rightarrow> Inl (AssertionFailed 246)
                             | (True, st4) \<Rightarrow> Inr st4)
                          else
                            (let st4 = (if shouldRemovePage
                                        then st3\<lparr>deleted_page_set := insert lp (deleted_page_set st3)\<rparr>
                                        else st3)
                             in (case (if transaction then clearTxnWorkSet 2 True st4
                                       else Inr (UnpinPage lp True st4)) of
                                   Inl e \<Rightarrow> Inl e
                                 | Inr st5 \<Rightarrow>
                                     if transaction \<and> page_set st5 \<noteq> [] then Inl (AssertionFailed 255)
                                     else Inr st5))))))"

section \<open>Example trees\<close>

text \<open>
  Trees with leaves of at most 4 entries and internal pages of at most 5 children, as in the
  scenarios of the spec: the empty tree; the tree \<^verbatim>\<open>Insert(1)\<close> makes of it; a root leaf
  that is full; and the tree \<^verbatim>\<open>Insert(5)\<close> makes of the full leaf by splitting it.
\<close>

definition empty_tree :: tree where
  "empty_tree =
     \<lparr>root_page_id = INVALID_PAGE_ID, pages = Map.empty, pins = (\<lambda>p. 0),
      fresh = [1, 2, 3, 4, 5, 6, 7, 8], latch = (\<lambda>p. 0), header = [], page_set = [],
      deleted_page_set = {}, leaf_max_size = 4, internal_max_size = 5\<rparr>"

definition one_key_tree :: tree where
  "one_key_tree =
     \<lparr>root_page_id = 1,
      pages = [1 \<mapsto> \<lparr>parent_page_id = INVALID_PAGE_ID, max_size = 4,
                      body = Leaf [(1, 10)] INVALID_PAGE_ID\<rparr>],
      pins = (\<lambda>p. 0), fresh = [2, 3, 4, 5, 6, 7, 8], latch = (\<lambda>p. 0),
      header = [InsertRecord 1], page_set = [], deleted_page_set = {},
      leaf_max_size = 4, internal_max_size = 5\<rparr>"

definition full_leaf_tree :: tree where
  "full_leaf_tree =
     \<lparr>root_page_id = 1,
      pages = [1 \<mapsto> \<lparr>parent_page_id = INVALID_PAGE_ID, max_size = 4,
                      body = Leaf [(1, 10), (2, 20), (3, 30), (4, 40)] INVALID_PAGE_ID\<rparr>],
      pins = (\<lambda>p. 0), fresh = [2, 3, 4, 5, 6, 7, 8], latch = (\<lambda>p. 0),
      header = [InsertRecord 1], page_set = [], deleted_page_set = {},
      leaf_max_size = 4, internal_max_size = 5\<rparr>"

definition two_leaf_tree :: tree where
  "two_leaf_tree =
     \<lparr>root_page_id = 3,
      pages = [1 \<mapsto> \<lparr>parent_page_id = 3, max_size = 4,
                      body = Leaf [(1, 10), (2, 20), (3, 30)] 2\<rparr>,
               2 \<mapsto> \<lparr>parent_page_id = 3, max_size = 4,
                      body = Leaf [(4, 40), (5, 50)] INVALID_PAGE_ID\<rparr>,
               3 \<mapsto> \<lparr>parent_page_id = INVALID_PAGE_ID, max_size = 5,
                      body = Internal [(0, 1), (3, 2)]\<rparr>],
      pins = (\<lambda>p. 0), fresh = [4, 5, 6, 7, 8], latch = (\<lambda>p. 0),
      header = [InsertRecord 1, UpdateRecord 3], page_set = [], deleted_page_set = {},
      leaf_max_size = 4, internal_max_size = 5\<rparr>"

text \<open>
  A tree of three leaves in the middle of \<^verbatim>\<open>Remove\<close>: key 5 has been taken out of the
  leaf 2, which is left with one entry between two leaves of two.
\<close>

definition three_leaf_tree :: tree where
  "three_leaf_tree =
     \<lparr>root_page_id = 3,
      pages = [1 \<mapsto> \<lparr>parent_page_id = 3, max_size = 4,
                      body = Leaf [(1, 10), (2, 20)] 2\<rparr>,
               2 \<mapsto> \<lparr>parent_page_id = 3, max_size = 4,
                      body = Leaf [(4, 40)] 4\<rparr>,
               4 \<mapsto> \<lparr>parent_page_id = 3, max_size = 4,
                      body = Leaf [(6, 60), (7, 70)] INVALID_PAGE_ID\<rparr>,
               3 \<mapsto> \<lparr>parent_page_id = INVALID_PAGE_ID, max_size = 5,
                      body = Internal [(0, 1), (2, 2), (5, 4)]\<rparr>],
      pins = (\<lambda>p. 0), fresh = [5, 6, 7, 8], latch = (\<lambda>p. 0),
      header = [InsertRecord 1, UpdateRecord 3], page_set = [], deleted_page_set = {},
      leaf_max_size = 4, internal_max_size = 5\<rparr>"

section \<open>The assertions on the page set\<close>

text \<open>
  The assertions that the transaction's page set is empty: at entry and exit of
  \<^verbatim>\<open>GetValue\<close> (lines 41, 50), of \<^verbatim>\<open>InsertIntoLeaf\<close> (lines 115, 137) and of \<^verbatim>\<open>Remove\<close>
  (lines 230, 255), and at entry of \<^verbatim>\<open>GetLeafPage\<close> (line 613).
\<close>

definition page_set_assertion :: "error \<Rightarrow> bool" where
  "page_set_assertion e = (e \<in> AssertionFailed ` {41, 50, 115, 137, 230, 255, 613})"

text \<open>
  A tree with internal pages of at most 2 children in the middle of \<^verbatim>\<open>InsertIntoLeaf\<close>: the
  leaf 2 has been split into the leaves 2 and 4, both still pinned, and the new leaf is not
  yet in the parent.
\<close>

definition split_leaf_tree :: tree where
  "split_leaf_tree =
     \<lparr>root_page_id = 3,
      pages = [1 \<mapsto> \<lparr>parent_page_id = 3, max_size = 4,
                      body = Leaf [(1, 10), (2, 20), (3, 30)] 2\<rparr>,
               2 \<mapsto> \<lparr>parent_page_id = 3, max_size = 4,
                      body = Leaf [(4, 40), (5, 50), (6, 60)] 4\<rparr>,
               3 \<mapsto> \<lparr>parent_page_id = INVALID_PAGE_ID, max_size = 2,
                      body = Internal [(0, 1), (3, 2)]\<rparr>,
               4 \<mapsto> \<lparr>parent_page_id = 3, max_size = 4,
                      body = Leaf [(7, 70), (8, 80)] INVALID_PAGE_ID\<rparr>],
      pins = (\<lambda>p. 0)(2 := 1, 4 := 1), fresh = [5, 6, 7, 8], latch = (\<lambda>p. 0),
      header = [InsertRecord 1, UpdateRecord 3], page_set = [], deleted_page_set = {},
      leaf_max_size = 4, internal_max_size = 2\<rparr>"

section \<open>The entries of a page\<close>

text \<open>
  The entries of a page of either kind (a key with a record id, or a key with a child), and
  the entries of the page with a given id in a state of the tree; no entries when the pool
  has no such page.
\<close>

definition page_entries :: "tree_page \<Rightarrow> (int \<times> int) list" where
  "page_entries p = (case body p of Leaf es nx \<Rightarrow> es | Internal es \<Rightarrow> es)"

definition entries_at :: "tree \<Rightarrow> page_id \<Rightarrow> (int \<times> int) list" where
  "entries_at st pid = (case pages st pid of None \<Rightarrow> [] | Some p \<Rightarrow> page_entries p)"

section \<open>The header calls of a run\<close>

text \<open>
  A header call made with \<^verbatim>\<open>insert_record = false\<close>. A later state \<open>st'\<close> follows \<open>st\<close> in
  the header when the calls made in between are all updates and the last of them, if any,
  records the root page id of \<open>st'\<close>; when none was made the root page id is the same.
  A step leaves the root unchanged when it changes neither the root page id nor the header.
\<close>

fun is_update :: "header_call \<Rightarrow> bool" where
  "is_update (UpdateRecord r) = True"
| "is_update (InsertRecord r) = False"

definition header_follows :: "tree \<Rightarrow> tree \<Rightarrow> bool" where
  "header_follows st st' =
     (\<exists>hs. header st' = header st @ hs \<and> list_all is_update hs \<and>
           (if hs = [] then root_page_id st' = root_page_id st
            else last hs = UpdateRecord (root_page_id st')))"

definition unchanged_root :: "tree \<Rightarrow> tree \<Rightarrow> bool" where
  "unchanged_root st st' = (root_page_id st' = root_page_id st \<and> header st' = header st)"

section \<open>The levels of the pages\<close>

text \<open>
  A page's children are the page ids of its entries. A store is levelled by \<open>lv\<close> up to \<open>h\<close>
  when no page has the id \<^verbatim>\<open>INVALID_PAGE_ID\<close> or lies above level \<open>h\<close>, the parent pointer of
  a page leads one level up and the children of a page lie one level below it. The levels bound the number of calls of
  \<^verbatim>\<open>CoalesceOrRedistribute\<close> on the way from a page to the root.
\<close>

definition children :: "tree_page \<Rightarrow> page_id set" where
  "children pg = snd ` set (internal_entries pg)"

definition levelled :: "(page_id \<Rightarrow> nat) \<Rightarrow> nat \<Rightarrow> tree \<Rightarrow> bool" where
  "levelled lv h st =
     (\<forall>p pg. pages st p = Some pg \<longrightarrow>
        p \<noteq> INVALID_PAGE_ID \<and> lv p \<le> h \<and>
        (parent_page_id pg \<noteq> INVALID_PAGE_ID \<longrightarrow> lv (parent_page_id pg) = Suc (lv p)) \<and>
        (\<forall>c \<in> children pg. lv p = Suc (lv c)))"

section \<open>Properties\<close>

lemmas page_defs =
  IsLeafPage_def IsRootPage_def GetSize_def GetMaxSize_def GetMinSize_def leaf_entries_def
  internal_entries_def INVALID_PAGE_ID_def HEADER_PAGE_ID_def IsEmpty_def

lemmas pool_defs =
  pin_def NewPage_def FetchPage_def UnpinPage_def DeletePage_def GetPage_def
  SetParentPageId_def UpdateRootPageId_def lockFor_def unlockFor_def AddIntoPageSet_def
  clearTxnWorkSet_def

lemmas insert_defs =
  Insert_def StartNewTree_def InsertIntoLeaf_def GetLeafPage_def Init_leaf_def
  Init_internal_def leaf_Insert_def leaf_Lookup_def set_leaf_entries_def
  set_internal_entries_def InsertIntoLeaf_split_def Split_def MoveHalfTo_def
  upper_half_from_def KeyAt_def page_keys_def PopulateNewRoot_def InsertNodeAfter_def
  GetLeafPage_step_def internal_Lookup_def release_rule_def

subsection \<open>The example trees are trees the code builds\<close>

lemma one_key_tree_built:
  "Insert (Suc 0) 1 10 transaction empty_tree = Inr (True, one_key_tree)"
  by (cases transaction)
     (simp_all add: empty_tree_def one_key_tree_def page_defs pool_defs insert_defs Let_def
        fun_eq_iff)

lemma two_leaf_tree_built:
  "Insert (Suc 0) 5 50 transaction full_leaf_tree = Inr (True, two_leaf_tree)"
  by (cases transaction)
     (simp_all add: full_leaf_tree_def two_leaf_tree_def page_defs pool_defs insert_defs
        Let_def fun_eq_iff)

subsection \<open>AdjustRoot on a root leaf\<close>

lemma AdjustRoot_root_leaf:
  assumes "pages st r = Some p" and "IsRootPage p" and "IsLeafPage p"
  shows "AdjustRoot r st =
           (if GetSize p < GetMinSize p
            then Inr (True, UpdateRootPageId False (st\<lparr>root_page_id := INVALID_PAGE_ID\<rparr>))
            else Inr (False, st))"
  using assms by (simp add: AdjustRoot_def)

lemma UpdateRootPageId_fields:
  "root_page_id (UpdateRootPageId b st) = root_page_id st"
  "pages (UpdateRootPageId b st) = pages st"
  "header (UpdateRootPageId b st) =
     header st @ [if b then InsertRecord (root_page_id st) else UpdateRecord (root_page_id st)]"
  by (simp_all add: UpdateRootPageId_def Let_def pin_def UnpinPage_def)

text \<open>
  Claim C1: for a root page \<open>r\<close> that is a leaf, \<^verbatim>\<open>AdjustRoot\<close> sets the root page id to
  \<^verbatim>\<open>INVALID_PAGE_ID\<close>, persists it with an update of the header record and returns true
  exactly when the leaf has size 0; the pages stay as they are. A root leaf that holds an
  entry is left alone: \<^verbatim>\<open>AdjustRoot\<close> returns false and changes nothing, and so does
  \<^verbatim>\<open>CoalesceOrRedistribute\<close>, which does not even call it.
\<close>

theorem AdjustRoot_empties_at_size_zero:
  assumes "pages st r = Some p" and "IsRootPage p" and "IsLeafPage p"
  shows "(GetSize p = 0 \<longrightarrow>
            (\<exists>st'. AdjustRoot r st = Inr (True, st') \<and>
               root_page_id st' = INVALID_PAGE_ID \<and>
               header st' = header st @ [UpdateRecord INVALID_PAGE_ID] \<and>
               pages st' = pages st)) \<and>
         (GetSize p \<noteq> 0 \<longrightarrow>
            AdjustRoot r st = Inr (False, st) \<and>
            CoalesceOrRedistribute (Suc n) r transaction st = Inr (False, st))"
proof -
  have m: "GetMinSize p = 1" using assms(2,3) by (simp add: GetMinSize_def)
  have s: "0 \<le> GetSize p" by (simp add: GetSize_def split: payload.splits)
  show ?thesis
    using assms s
    by (auto simp add: AdjustRoot_root_leaf m UpdateRootPageId_fields)
qed

text \<open>
  The root leaf of \<open>one_key_tree\<close>, which holds key 1, stays; once its entry is gone the tree
  is emptied.
\<close>

theorem AdjustRoot_empties_at_size_zero_witness:
  "AdjustRoot 1 one_key_tree = Inr (False, one_key_tree) \<and>
   CoalesceOrRedistribute (Suc 0) 1 False one_key_tree = Inr (False, one_key_tree) \<and>
   (\<exists>st'. AdjustRoot 1 (set_leaf_entries 1 [] one_key_tree) = Inr (True, st') \<and>
      root_page_id st' = INVALID_PAGE_ID \<and>
      header st' = header (set_leaf_entries 1 [] one_key_tree) @ [UpdateRecord INVALID_PAGE_ID] \<and>
      pages st' = pages (set_leaf_entries 1 [] one_key_tree))"
proof -
  have kept: "AdjustRoot 1 one_key_tree = Inr (False, one_key_tree) \<and>
      CoalesceOrRedistribute (Suc 0) 1 False one_key_tree = Inr (False, one_key_tree)"
    by (rule AdjustRoot_empties_at_size_zero
          [where p = "\<lparr>parent_page_id = INVALID_PAGE_ID, max_size = 4,
                        body = Leaf [(1, 10)] INVALID_PAGE_ID\<rparr>",
           THEN conjunct2, THEN mp])
       (simp_all add: one_key_tree_def page_defs)
  have emptied: "\<exists>st'. AdjustRoot 1 (set_leaf_entries 1 [] one_key_tree) = Inr (True, st') \<and>
      root_page_id st' = INVALID_PAGE_ID \<and>
      header st' = header (set_leaf_entries 1 [] one_key_tree) @ [UpdateRecord INVALID_PAGE_ID] \<and>
      pages st' = pages (set_leaf_entries 1 [] one_key_tree)"
    by (rule AdjustRoot_empties_at_size_zero
          [where p = "\<lparr>parent_page_id = INVALID_PAGE_ID, max_size = 4,
                        body = Leaf [] INVALID_PAGE_ID\<rparr>" and n = 0 and transaction = False,
           THEN conjunct1, THEN mp])
       (simp_all add: one_key_tree_def page_defs set_leaf_entries_def)
  from kept emptied show ?thesis by simp
qed

subsection \<open>GetValue on the empty tree\<close>

text \<open>
  Claim C2 says that \<^verbatim>\<open>GetValue\<close> returns false for an absent key on every tree, the empty
  tree included. On an empty tree \<^verbatim>\<open>GetLeafPage\<close> returns the null pointer and \<^verbatim>\<open>GetValue\<close>
  calls \<^verbatim>\<open>Lookup\<close> on it: with or without a transaction, whatever the key, the call does not
  return a value.
\<close>

theorem GetValue_empty_tree_null_pointer:
  "GetValue fuel k transaction (st\<lparr>root_page_id := INVALID_PAGE_ID, page_set := []\<rparr>) =
     Inl NullPointer"
  by (simp add: GetValue_def GetLeafPage_def IsEmpty_def)

subsection \<open>Pins of Begin\<close>

text \<open>
  Claim C4 says that every public operation unpins each page it fetched, so that the pin
  counts return to their values before the operation. \<^verbatim>\<open>Begin()\<close> fetches the root and each
  first child down to the leftmost leaf and unpins none of them; the iterator it returns is
  built from the page id of the leaf. On \<open>two_leaf_tree\<close> no page is pinned before the
  call; after it the root, page 3, and the leftmost leaf, page 1, have pin count 1.
\<close>

theorem Begin_leaves_pages_pinned:
  "pins two_leaf_tree = (\<lambda>p. 0) \<and>
   Begin (Suc (Suc 0)) two_leaf_tree =
     Inr ((1, 0), two_leaf_tree\<lparr>pins := (\<lambda>p. 0)(3 := 1, 1 := 1)\<rparr>)"
  by (simp add: two_leaf_tree_def Begin_def page_defs pool_defs fun_eq_iff)

subsection \<open>The release rule of the crabbing descent\<close>

text \<open>
  During a descent the deleted page set is empty, so draining the work set deletes nothing:
  every page of the page set is unlatched and unpinned, once for each time it is in the set.
\<close>

lemma release_pages_no_deletions:
  "deleted_page_set st = {} \<Longrightarrow>
   release_pages m d ps st =
     Inr (st\<lparr>pins := (\<lambda>a. pins st a - count_list ps a),
             latch := (\<lambda>a. latch st a - count_list ps a)\<rparr>)"
proof (induction ps arbitrary: st)
  case Nil
  then show ?case by simp
next
  case (Cons p ps)
  let ?st1 = "UnpinPage p d (unlockFor m p st)"
  have d1: "deleted_page_set ?st1 = {}"
    using Cons.prems by (simp add: UnpinPage_def unlockFor_def)
  have "release_pages m d (p # ps) st = release_pages m d ps ?st1"
    using d1 by (simp add: Let_def)
  also have "\<dots> = Inr (?st1\<lparr>pins := (\<lambda>a. pins ?st1 a - count_list ps a),
                             latch := (\<lambda>a. latch ?st1 a - count_list ps a)\<rparr>)"
    by (rule Cons.IH [OF d1])
  also have "\<dots> = Inr (st\<lparr>pins := (\<lambda>a. pins st a - count_list (p # ps) a),
                          latch := (\<lambda>a. latch st a - count_list (p # ps) a)\<rparr>)"
    by (simp add: UnpinPage_def unlockFor_def fun_eq_iff)
  finally show ?case .
qed

lemma clearTxnWorkSet_no_deletions:
  "deleted_page_set st = {} \<Longrightarrow>
   clearTxnWorkSet m d st =
     Inr (st\<lparr>pins := (\<lambda>a. pins st a - count_list (page_set st) a),
             latch := (\<lambda>a. latch st a - count_list (page_set st) a),
             page_set := []\<rparr>)"
  by (simp add: clearTxnWorkSet_def release_pages_no_deletions)

lemma release_rule_no_deletions:
  assumes "deleted_page_set st = {}"
    and "findInsertDelete = 0 \<or> findInsertDelete = 1 \<or> findInsertDelete = 2"
  shows "release_rule findInsertDelete btp st =
     Inr (if findInsertDelete = 0 \<or>
             findInsertDelete = 1 \<and> GetSize btp < GetMaxSize btp \<or>
             findInsertDelete = 2 \<and> GetMinSize btp < GetSize btp
          then st\<lparr>pins := (\<lambda>a. pins st a - count_list (page_set st) a),
                  latch := (\<lambda>a. latch st a - count_list (page_set st) a),
                  page_set := []\<rparr>
          else st)"
  using assms(2) by (auto simp add: release_rule_def clearTxnWorkSet_no_deletions [OF assms(1)])

text \<open>
  Claim C8: in a round of the transactional descent from the internal page \<open>page_id\<close> to
  its child \<open>next\<close>, the child is fetched and latched; then, exactly when the child is safe
  (always in read mode 0, when its size is below its maximum size in insert mode 1, when its
  size is above its minimum size in delete mode 2), every page of the work set is unlatched
  and unpinned and the work set becomes the child alone; otherwise no page is released and
  the child is added behind the ancestors, which stay in the work set.
\<close>

theorem GetLeafPage_step_release_rule:
  assumes "pages st page_id = Some ip"
    and "internal_Lookup k (internal_entries ip) = Some next"
    and "pages st next = Some child"
    and "deleted_page_set st = {}"
    and "findInsertDelete = 0 \<or> findInsertDelete = 1 \<or> findInsertDelete = 2"
  shows "GetLeafPage_step k True findInsertDelete page_id st =
     Inr (next,
       if findInsertDelete = 0 \<or>
          findInsertDelete = 1 \<and> GetSize child < GetMaxSize child \<or>
          findInsertDelete = 2 \<and> GetMinSize child < GetSize child
       then st\<lparr>pins := (\<lambda>a. (pins st a + (if a = next then 1 else 0))
                              - count_list (page_set st) a),
               latch := (\<lambda>a. (latch st a + (if a = next then 1 else 0))
                              - count_list (page_set st) a),
               page_set := [next]\<rparr>
       else st\<lparr>pins := (pins st)(next := pins st next + 1),
               latch := (latch st)(next := latch st next + 1),
               page_set := page_set st @ [next]\<rparr>)"
proof -
  let ?st1 = "lockFor findInsertDelete next (pin next st)"
  have d1: "deleted_page_set ?st1 = {}"
    using assms(4) by (simp add: lockFor_def pin_def)
  have step: "GetLeafPage_step k True findInsertDelete page_id st =
      (case release_rule findInsertDelete child ?st1 of
         Inl e \<Rightarrow> Inl e
       | Inr st2 \<Rightarrow> Inr (next, AddIntoPageSet next st2))"
    using assms(1,2,3) by (simp add: GetLeafPage_step_def GetPage_def FetchPage_def)
  show ?thesis
    unfolding step release_rule_no_deletions [OF d1 assms(5)]
    by (simp add: AddIntoPageSet_def lockFor_def pin_def fun_eq_iff)
qed

text \<open>
  In \<open>two_leaf_tree\<close> with the root latched, pinned and in the work set: the descent for
  key 4 in insert mode reaches the right leaf, which has 2 of 4 entries and is safe, so the
  root is released; in delete mode the same leaf is at its minimum size 2, so the root
  stays latched and pinned in the work set.
\<close>

theorem GetLeafPage_step_release_rule_witness:
  "GetLeafPage_step 4 True 1 3
     (two_leaf_tree\<lparr>pins := (\<lambda>p. 0)(3 := 1), latch := (\<lambda>p. 0)(3 := 1), page_set := [3]\<rparr>) =
     Inr (2, two_leaf_tree\<lparr>pins := (\<lambda>p. 0)(2 := 1), latch := (\<lambda>p. 0)(2 := 1),
                            page_set := [2]\<rparr>) \<and>
   GetLeafPage_step 4 True 2 3
     (two_leaf_tree\<lparr>pins := (\<lambda>p. 0)(3 := 1), latch := (\<lambda>p. 0)(3 := 1), page_set := [3]\<rparr>) =
     Inr (2, two_leaf_tree\<lparr>pins := (\<lambda>p. 0)(3 := 1, 2 := 1),
                            latch := (\<lambda>p. 0)(3 := 1, 2 := 1), page_set := [3, 2]\<rparr>)"
  using
    GetLeafPage_step_release_rule
      [of "two_leaf_tree\<lparr>pins := (\<lambda>p. 0)(3 := 1), latch := (\<lambda>p. 0)(3 := 1), page_set := [3]\<rparr>"
          3 "\<lparr>parent_page_id = INVALID_PAGE_ID, max_size = 5, body = Internal [(0, 1), (3, 2)]\<rparr>"
          4 2 "\<lparr>parent_page_id = 3, max_size = 4, body = Leaf [(4, 40), (5, 50)] INVALID_PAGE_ID\<rparr>"
          1]
    GetLeafPage_step_release_rule
      [of "two_leaf_tree\<lparr>pins := (\<lambda>p. 0)(3 := 1), latch := (\<lambda>p. 0)(3 := 1), page_set := [3]\<rparr>"
          3 "\<lparr>parent_page_id = INVALID_PAGE_ID, max_size = 5, body = Internal [(0, 1), (3, 2)]\<rparr>"
          4 2 "\<lparr>parent_page_id = 3, max_size = 4, body = Leaf [(4, 40), (5, 50)] INVALID_PAGE_ID\<rparr>"
          2]
  by (simp add: two_leaf_tree_def page_defs internal_Lookup_def fun_eq_iff)

lemmas remove_defs =
  Remove_def leaf_Remove_def AdjustRoot_def ValueIndex_def ValueAt_def remove_at_def
  GetInternalPage_def GetPage_txn_def set_parent_key_def MoveAllTo_def MoveFirstToEndOf_def
  MoveLastToFrontOf_def Redistribute_def parent_Remove_def parent_SetValueAt_def Coalesce_def
  look_left_def look_right_def merge_siblings_def

subsection \<open>The work set is drained\<close>

text \<open>
  No method called below the public operations stops at one of the assertions on the page
  set.
\<close>

lemma psa_simps [simp]:
  "\<not> page_set_assertion BadAlloc" "\<not> page_set_assertion NullPointer"
  "\<not> page_set_assertion OutOfBounds" "\<not> page_set_assertion NoSuchChild"
  "\<not> page_set_assertion OutOfFuel"
  "page_set_assertion (AssertionFailed n) = (n \<in> {41, 50, 115, 137, 230, 255, 613})"
  by (auto simp: page_set_assertion_def)

lemma release_pages_psa: "release_pages m d ps st = Inl e \<Longrightarrow> \<not> page_set_assertion e"
  by (induction ps arbitrary: st) (auto simp: Let_def split: if_splits prod.splits bool.splits)

lemma clearTxnWorkSet_psa: "clearTxnWorkSet m d st = Inl e \<Longrightarrow> \<not> page_set_assertion e"
  by (auto simp: clearTxnWorkSet_def split: sum.splits dest: release_pages_psa)

lemma clearTxnWorkSet_drains:
  "clearTxnWorkSet m d st = Inr st' \<Longrightarrow> page_set st' = [] \<and> deleted_page_set st' = {}"
  by (auto simp: clearTxnWorkSet_def split: sum.splits)

lemma release_rule_psa: "release_rule m btp st = Inl e \<Longrightarrow> \<not> page_set_assertion e"
  by (auto simp: release_rule_def split: if_splits dest: clearTxnWorkSet_psa)

lemma GetLeafPage_step_psa:
  "GetLeafPage_step k t m p st = Inl e \<Longrightarrow> \<not> page_set_assertion e"
  by (auto simp: GetLeafPage_step_def split: option.splits prod.splits sum.splits if_splits
      dest: release_rule_psa)

lemma GetLeafPage_loop_psa:
  "GetLeafPage_loop n k t m p st = Inl e \<Longrightarrow> \<not> page_set_assertion e"
proof (induction n arbitrary: p st)
  case 0
  then show ?case by auto
next
  case (Suc n)
  then show ?case
    by (auto split: option.splits sum.splits if_splits prod.splits dest: GetLeafPage_step_psa)
qed

lemma GetLeafPage_psa:
  assumes "GetLeafPage n k t m st = Inl e" and "page_set st = []" and "deleted_page_set st = {}"
  shows "\<not> page_set_assertion e"
  using assms
  by (auto simp: GetLeafPage_def Let_def split: option.splits sum.splits if_splits prod.splits
      dest: GetLeafPage_loop_psa)

lemma Split_psa: "Split node st = Inl e \<Longrightarrow> \<not> page_set_assertion e"
  by (auto simp: Split_def Let_def split: option.splits prod.splits)

lemma InsertNodeAfter_psa: "InsertNodeAfter p a k b st = Inl e \<Longrightarrow> \<not> page_set_assertion e"
  by (auto simp: InsertNodeAfter_def split: option.splits)

lemma InsertIntoParent_psa:
  "InsertIntoParent n old k new st = Inl e \<Longrightarrow> \<not> page_set_assertion e"
proof (induction n arbitrary: old k new st)
  case 0
  then show ?case by auto
next
  case (Suc n)
  then show ?case
    by (auto simp: Let_def split: option.splits sum.splits if_splits prod.splits
        dest: Split_psa InsertNodeAfter_psa)
qed

lemma InsertIntoLeaf_split_psa:
  "InsertIntoLeaf_split n lp st = Inl e \<Longrightarrow> \<not> page_set_assertion e"
  by (auto simp: InsertIntoLeaf_split_def split: option.splits sum.splits prod.splits
      dest: Split_psa InsertIntoParent_psa)

lemma InsertIntoLeaf_drained:
  assumes "page_set st = []" and "deleted_page_set st = {}"
  shows "case InsertIntoLeaf fuel k v True st of
           Inl e \<Rightarrow> \<not> page_set_assertion e
         | Inr (r, st') \<Rightarrow> page_set st' = [] \<and> deleted_page_set st' = {}"
  using assms
  apply (auto simp: InsertIntoLeaf_def Let_def IsEmpty_def split: sum.splits option.splits prod.splits if_splits
      dest: GetLeafPage_psa InsertIntoLeaf_split_psa clearTxnWorkSet_psa clearTxnWorkSet_drains)
  apply (auto simp: GetLeafPage_def split: if_splits prod.splits option.splits sum.splits)
  done


lemma AdjustRoot_psa: "AdjustRoot r st = Inl e \<Longrightarrow> \<not> page_set_assertion e"
  by (auto simp: AdjustRoot_def Let_def split: option.splits list.splits prod.splits if_splits)

lemma MoveAllTo_psa: "MoveAllTo a b i st = Inl e \<Longrightarrow> \<not> page_set_assertion e"
  by (auto simp: MoveAllTo_def split: option.splits payload.splits)

lemma MoveFirstToEndOf_psa: "MoveFirstToEndOf a b st = Inl e \<Longrightarrow> \<not> page_set_assertion e"
  by (auto simp: MoveFirstToEndOf_def split: option.splits payload.splits list.splits)

lemma MoveLastToFrontOf_psa: "MoveLastToFrontOf a b i st = Inl e \<Longrightarrow> \<not> page_set_assertion e"
  by (auto simp: MoveLastToFrontOf_def split: option.splits payload.splits if_splits)

lemma Redistribute_psa: "Redistribute a b i st = Inl e \<Longrightarrow> \<not> page_set_assertion e"
  by (auto simp: Redistribute_def split: if_splits dest: MoveFirstToEndOf_psa MoveLastToFrontOf_psa)

lemma parent_Remove_psa: "parent_Remove a b st = Inl e \<Longrightarrow> \<not> page_set_assertion e"
  by (auto simp: parent_Remove_def split: option.splits)

lemma parent_SetValueAt_psa: "parent_SetValueAt a b c st = Inl e \<Longrightarrow> \<not> page_set_assertion e"
  by (auto simp: parent_SetValueAt_def split: option.splits)

lemma Coalesce_psa: "Coalesce a b c i st = Inl e \<Longrightarrow> \<not> page_set_assertion e"
  by (auto simp: Coalesce_def split: option.splits sum.splits if_splits
      dest: MoveAllTo_psa parent_Remove_psa parent_SetValueAt_psa)

lemma look_left_psa: "look_left a b i t st = Inl e \<Longrightarrow> \<not> page_set_assertion e"
  by (auto simp: look_left_def split: option.splits sum.splits if_splits prod.splits
      dest: Redistribute_psa)

lemma look_right_psa: "look_right a b i l t st = Inl e \<Longrightarrow> \<not> page_set_assertion e"
  by (auto simp: look_right_def split: option.splits sum.splits if_splits prod.splits
      dest: Redistribute_psa)

lemma merge_siblings_psa: "merge_siblings a b l r t st = Inl e \<Longrightarrow> \<not> page_set_assertion e"
  by (auto simp: merge_siblings_def split: option.splits sum.splits if_splits prod.splits
      dest: Coalesce_psa)

lemma CoalesceOrRedistribute_psa:
  "CoalesceOrRedistribute n node t st = Inl e \<Longrightarrow> \<not> page_set_assertion e"
proof (induction n arbitrary: node st)
  case 0
  then show ?case by auto
next
  case (Suc n)
  then show ?case
    by (auto simp: Let_def split: option.splits sum.splits if_splits prod.splits bool.splits
        dest: AdjustRoot_psa look_left_psa look_right_psa merge_siblings_psa)
qed

lemma GetValue_drained:
  assumes "page_set st = []" and "deleted_page_set st = {}"
  shows "case GetValue fuel k True st of
           Inl e \<Rightarrow> \<not> page_set_assertion e
         | Inr (r, st') \<Rightarrow> page_set st' = [] \<and> deleted_page_set st' = {}"
  using assms
  by (auto simp: GetValue_def Let_def split: sum.splits option.splits prod.splits if_splits
      dest: GetLeafPage_psa clearTxnWorkSet_psa clearTxnWorkSet_drains)

lemma Insert_drained:
  assumes "page_set st = []" and "deleted_page_set st = {}"
  shows "case Insert fuel k v True st of
           Inl e \<Rightarrow> \<not> page_set_assertion e
         | Inr (r, st') \<Rightarrow> page_set st' = [] \<and> deleted_page_set st' = {}"
proof (cases "IsEmpty st")
  case False
  then show ?thesis using InsertIntoLeaf_drained [OF assms] by (simp add: Insert_def)
next
  case True
  show ?thesis
  proof (cases "fresh st")
    case Nil
    then show ?thesis using True by (simp add: Insert_def StartNewTree_def NewPage_def)
  next
    case (Cons pid rest)
    let ?st3 = "UpdateRootPageId True
       ((UnpinPage pid True (Init_leaf pid INVALID_PAGE_ID (snd (NewPage st))))\<lparr>root_page_id := pid\<rparr>)"
    have "page_set ?st3 = []" "deleted_page_set ?st3 = {}"
      using assms Cons by (simp_all add: pool_defs Init_leaf_def Let_def)
    from InsertIntoLeaf_drained [OF this, of fuel k v]
    show ?thesis using True Cons
      by (auto simp: Insert_def StartNewTree_def NewPage_def IsEmpty_def Let_def UnpinPage_def Init_leaf_def
          split: sum.splits prod.splits)
  qed
qed

lemma Remove_drained:
  assumes "page_set st = []" and "deleted_page_set st = {}"
  shows "case Remove fuel k True st of
           Inl e \<Rightarrow> \<not> page_set_assertion e
         | Inr st' \<Rightarrow> page_set st' = [] \<and> deleted_page_set st' = {}"
  using assms
  by (auto simp: Remove_def Let_def split: sum.splits option.splits prod.splits if_splits
      dest: GetLeafPage_psa clearTxnWorkSet_psa clearTxnWorkSet_drains CoalesceOrRedistribute_psa)

text \<open>
  Claim C10: when a public operation is entered under a transaction whose page set and
  deleted page set are empty, none of the assertions on the page set fails, at entry or at
  exit, and when \<^verbatim>\<open>GetValue\<close>, \<^verbatim>\<open>Insert\<close> or \<^verbatim>\<open>Remove\<close> returns, every page that
  \<^verbatim>\<open>GetLeafPage\<close> and the repair of the tree pushed has been drained: both sets are empty
  again.
\<close>

theorem work_set_drained:
  assumes "page_set st = []" and "deleted_page_set st = {}"
  shows "(case GetValue fuel k True st of
            Inl e \<Rightarrow> \<not> page_set_assertion e
          | Inr (r, st') \<Rightarrow> page_set st' = [] \<and> deleted_page_set st' = {}) \<and>
         (case Insert fuel k v True st of
            Inl e \<Rightarrow> \<not> page_set_assertion e
          | Inr (r, st') \<Rightarrow> page_set st' = [] \<and> deleted_page_set st' = {}) \<and>
         (case Remove fuel k True st of
            Inl e \<Rightarrow> \<not> page_set_assertion e
          | Inr st' \<Rightarrow> page_set st' = [] \<and> deleted_page_set st' = {})"
  using GetValue_drained [OF assms] Insert_drained [OF assms] Remove_drained [OF assms]
  by simp

lemma GetValue_two_leaf_tree: "GetValue (Suc (Suc 0)) 4 True two_leaf_tree = Inr ((True, Some 40), two_leaf_tree)"
  by (simp add: two_leaf_tree_def GetValue_def page_defs pool_defs insert_defs Let_def fun_eq_iff)

lemma Insert_two_leaf_tree: "Insert (Suc (Suc 0)) 4 40 True two_leaf_tree = Inr (False, two_leaf_tree)"
  by (simp add: two_leaf_tree_def page_defs pool_defs insert_defs Let_def fun_eq_iff)

lemma Remove_two_leaf_tree: "Remove (Suc (Suc 0)) 4 True two_leaf_tree = Inr (two_leaf_tree\<lparr>pages :=
      [1 \<mapsto> \<lparr>parent_page_id = 3, max_size = 4,
                      body = Leaf [(1, 10), (2, 20)] 2\<rparr>,
               2 \<mapsto> \<lparr>parent_page_id = 3, max_size = 4,
                      body = Leaf [(3, 30), (5, 50)] INVALID_PAGE_ID\<rparr>,
               3 \<mapsto> \<lparr>parent_page_id = INVALID_PAGE_ID, max_size = 5,
                      body = Internal [(0, 1), (2, 2)]\<rparr>]\<rparr>)"
  by (simp add: two_leaf_tree_def page_defs pool_defs insert_defs remove_defs Let_def fun_eq_iff)

lemma two_leaf_tree_sets: "page_set two_leaf_tree = []" "deleted_page_set two_leaf_tree = {}"
  by (simp_all add: two_leaf_tree_def)

text \<open>
  On \<open>two_leaf_tree\<close> under a transaction: the lookup of key 4, its repeated insertion and
  its removal (which borrows an entry from the left leaf) all return with an empty page set.
\<close>

theorem work_set_drained_witness:
  "page_set two_leaf_tree = [] \<and> deleted_page_set two_leaf_tree = {} \<and>
   GetValue (Suc (Suc 0)) 4 True two_leaf_tree = Inr ((True, Some 40), two_leaf_tree) \<and>
   Insert (Suc (Suc 0)) 4 40 True two_leaf_tree = Inr (False, two_leaf_tree) \<and>
   (\<exists>st'. Remove (Suc (Suc 0)) 4 True two_leaf_tree = Inr st' \<and> page_set st' = [])"
  using work_set_drained [where st = two_leaf_tree and fuel = "Suc (Suc 0)" and k = 4 and v = 40]
  by (simp add: GetValue_two_leaf_tree Insert_two_leaf_tree Remove_two_leaf_tree
        two_leaf_tree_sets)

subsection \<open>Separator keys of a split\<close>

lemma sorted_last_Max:
  fixes xs :: "int list"
  shows "sorted xs \<Longrightarrow> xs \<noteq> [] \<Longrightarrow> last xs = Max (set xs)"
proof (induction xs)
  case Nil
  then show ?case by simp
next
  case (Cons x xs)
  show ?case
  proof (cases "xs = []")
    case True
    then show ?thesis by simp
  next
    case False
    with Cons have "last xs = Max (set xs)" by simp
    moreover have "x \<le> Max (set xs)"
      using Cons.prems False by (simp add: Max_ge_iff) (meson last_in_set)
    ultimately show ?thesis using False by (simp add: max_def)
  qed
qed

lemma leaf_Insert_sorted:
  "sorted (map fst es) \<Longrightarrow> sorted (map fst (leaf_Insert k v es))"
proof (induction es)
  case Nil
  then show ?case by (simp add: leaf_Insert_def leaf_Lookup_def)
next
  case (Cons e es)
  then show ?case
    by (auto simp add: leaf_Insert_def leaf_Lookup_def split: if_splits
        dest!: set_takeWhileD set_dropWhileD)
qed

lemma KeyAt_last:
  assumes "page_keys q \<noteq> []"
  shows "KeyAt q (GetSize q - 1) = Some (last (page_keys q))"
proof -
  have "GetSize q = int (length (page_keys q))"
    by (simp add: GetSize_def page_keys_def split: payload.splits)
  then show ?thesis using assms
    by (simp add: KeyAt_def last_conv_nth nat_diff_distrib')
qed

lemma MoveHalfTo_leaf:
  assumes "pages st node = Some n" and "body n = Leaf es nx" and "pages st sib = Some s"
    and "sib \<noteq> node"
  shows "pages (MoveHalfTo node sib st) node =
           Some (n\<lparr>body := Leaf (take (upper_half_from es) es) sib\<rparr>)"
  using assms by (simp add: MoveHalfTo_def)

lemma Split_leaf:
  assumes "pages st lp = Some leaf" and "body leaf = Leaf es nx"
    and "fresh st = newlp # rest" and "newlp \<noteq> lp"
  shows "\<exists>st1. Split lp st = Inr (newlp, st1) \<and>
           pages st1 lp = Some (leaf\<lparr>body := Leaf (take (upper_half_from es) es) newlp\<rparr>)"
  using assms
  by (simp add: Split_def NewPage_def IsLeafPage_def Init_leaf_def MoveHalfTo_def)


lemma leaf_Insert_not_empty: "leaf_Insert k v es \<noteq> []"
  by (cases es) (auto simp add: leaf_Insert_def leaf_Lookup_def)

lemma leaf_split_separator:
  assumes "pages st lp = Some leaf" and "body leaf = Leaf es0 nx" and "sorted (map fst es0)"
    and "GetMaxSize leaf < int (length (leaf_Insert k v es0))"
    and "fresh st = newlp # rest" and "newlp \<noteq> lp"
  shows "\<exists>st1 left.
           Split lp (set_leaf_entries lp (leaf_Insert k v es0) st) = Inr (newlp, st1) \<and>
           pages st1 lp = Some left \<and> leaf_entries left \<noteq> [] \<and>
           InsertIntoLeaf_split fuel lp (set_leaf_entries lp (leaf_Insert k v es0) st) =
             (case InsertIntoParent fuel lp (Max (fst ` set (leaf_entries left))) newlp st1 of
                Inl e \<Rightarrow> Inl e
              | Inr st2 \<Rightarrow> Inr (UnpinPage newlp True st2))"
proof -
  let ?es = "leaf_Insert k v es0"
  let ?st = "set_leaf_entries lp ?es st"
  let ?left = "leaf\<lparr>body := Leaf (take (upper_half_from ?es) ?es) newlp\<rparr>"
  have p: "pages ?st lp = Some (leaf\<lparr>body := Leaf ?es nx\<rparr>)" and f: "fresh ?st = newlp # rest"
    using assms(1,2,5) by (simp_all add: set_leaf_entries_def)
  from Split_leaf [OF p _ f assms(6), of ?es nx]
  obtain st1 where s: "Split lp ?st = Inr (newlp, st1)" and l: "pages st1 lp = Some ?left"
    by auto
  have ne: "?es \<noteq> []" by (rule leaf_Insert_not_empty)
  then have h: "0 < upper_half_from ?es"
    by (cases ?es) (simp_all add: upper_half_from_def)
  have keys: "page_keys ?left = map fst (take (upper_half_from ?es) ?es)"
    and ents: "leaf_entries ?left = take (upper_half_from ?es) ?es"
    by (simp_all add: page_keys_def leaf_entries_def)
  have tne: "take (upper_half_from ?es) ?es \<noteq> []" using ne h by simp
  have srt: "sorted (map fst (take (upper_half_from ?es) ?es))"
    using leaf_Insert_sorted [OF assms(3), of k v] by (simp add: take_map [symmetric])
  have "KeyAt ?left (GetSize ?left - 1) = Some (last (page_keys ?left))"
    by (rule KeyAt_last) (use tne in \<open>simp add: keys\<close>)
  also have "last (page_keys ?left) = Max (fst ` set (leaf_entries ?left))"
    using sorted_last_Max [OF srt] tne by (simp add: keys ents)
  finally have k1: "KeyAt ?left (GetSize ?left - 1) = Some (Max (fst ` set (leaf_entries ?left)))" .
  have "InsertIntoLeaf_split fuel lp ?st =
          (case InsertIntoParent fuel lp (Max (fst ` set (leaf_entries ?left))) newlp st1 of
             Inl e \<Rightarrow> Inl e
           | Inr st2 \<Rightarrow> Inr (UnpinPage newlp True st2))"
    unfolding InsertIntoLeaf_split_def by (simp add: s l k1)
  moreover have "leaf_entries ?left \<noteq> []" using tne by (simp add: ents)
  ultimately show ?thesis using s l by blast
qed

lemma SetParentPageId_body:
  "map_option body (pages (SetParentPageId c p st) x) = map_option body (pages st x)"
  by (simp add: SetParentPageId_def split: option.splits)

lemma fold_SetParentPageId_body:
  "map_option body (pages (fold (\<lambda>c. SetParentPageId c p) cs st) x) = map_option body (pages st x)"
  by (induction cs arbitrary: st) (simp_all add: SetParentPageId_body)

lemma fold_SetParentPageId_fresh:
  "fresh (fold (\<lambda>c. SetParentPageId c p) cs st) = fresh st"
  by (induction cs arbitrary: st) (simp_all add: SetParentPageId_def split: option.splits)

lemma insert_node_after_length:
  "insert_node_after a e es = Some es' \<Longrightarrow> 2 \<le> length es'"
  by (induction es arbitrary: es') (auto split: if_splits)

lemma Split_internal:
  assumes "pages st pp = Some ip" and "body ip = Internal es"
    and "fresh st = newlp # rest" and "newlp \<noteq> pp"
  shows "\<exists>st1 right. Split pp st = Inr (newlp, st1) \<and> pages st1 newlp = Some right \<and>
           internal_entries right = drop (upper_half_from es) es"
proof -
  let ?st2 = "Init_internal newlp (parent_page_id ip) (snd (NewPage st))"
  have sp: "Split pp st = Inr (newlp, MoveHalfTo pp newlp ?st2)"
    using assms by (simp add: Split_def NewPage_def IsLeafPage_def Init_internal_def)
  have "map_option body (pages (MoveHalfTo pp newlp ?st2) newlp) =
          Some (Internal (drop (upper_half_from es) es))"
    using assms
    by (simp add: MoveHalfTo_def NewPage_def Init_internal_def fold_SetParentPageId_body
        internal_entries_def)
  then obtain right where "pages (MoveHalfTo pp newlp ?st2) newlp = Some right"
    and "body right = Internal (drop (upper_half_from es) es)"
    by auto
  then show ?thesis using sp by (auto simp add: internal_entries_def)
qed

lemma internal_split_separator:
  assumes "pages st old_node = Some old" and "parent_page_id old = pp"
    and "pp \<noteq> INVALID_PAGE_ID" and "pages st pp = Some ip0"
    and "InsertNodeAfter pp old_node k new_node (pin pp st) = Inr st2"
    and "pages st2 pp = Some ip" and "GetMaxSize ip < GetSize ip"
    and "fresh st2 = newlp # rest" and "newlp \<noteq> pp"
  shows "\<exists>st3 right.
           Split pp st2 = Inr (newlp, st3) \<and>
           pages st3 newlp = Some right \<and> internal_entries right \<noteq> [] \<and>
           InsertIntoParent (Suc n) old_node k new_node st =
             (case InsertIntoParent n pp (fst (hd (internal_entries right))) newlp st3 of
                Inl e \<Rightarrow> Inl e
              | Inr st4 \<Rightarrow> Inr (UnpinPage pp True (UnpinPage newlp True st4)))"
proof -
  from assms(4,5) obtain es' where
    ina: "insert_node_after old_node (k, new_node) (internal_entries ip0) = Some es'"
    and st2: "st2 = set_internal_entries pp es' (pin pp st)"
    by (auto simp add: InsertNodeAfter_def pin_def split: option.splits)
  from ina obtain es0 where b0: "body ip0 = Internal es0"
    by (cases "body ip0") (auto simp add: internal_entries_def)
  have ip: "ip = ip0\<lparr>body := Internal es'\<rparr>"
    using assms(4,6) b0 by (simp add: st2 set_internal_entries_def pin_def)
  then have bi: "body ip = Internal es'" by simp
  from Split_internal [OF assms(6) bi assms(8,9)]
  obtain st3 right where sp: "Split pp st2 = Inr (newlp, st3)"
    and r: "pages st3 newlp = Some right"
    and re: "internal_entries right = drop (upper_half_from es') es'"
    by blast
  have len: "2 \<le> length es'" by (rule insert_node_after_length [OF ina])
  then have "upper_half_from es' < length es'" by (simp add: upper_half_from_def)
  then have rne: "internal_entries right \<noteq> []" by (simp add: re)
  then have k0: "KeyAt right 0 = Some (fst (hd (internal_entries right)))"
    by (cases "body right")
       (auto simp add: KeyAt_def GetSize_def page_keys_def internal_entries_def hd_conv_nth)
  have f: "FetchPage pp st = (Some ip0, pin pp st)"
    using assms(4) by (simp add: FetchPage_def)
  have "InsertIntoParent (Suc n) old_node k new_node st =
          (case InsertIntoParent n pp (fst (hd (internal_entries right))) newlp st3 of
             Inl e \<Rightarrow> Inl e
           | Inr st4 \<Rightarrow> Inr (UnpinPage pp True (UnpinPage newlp True st4)))"
    using assms(1,2,3,5,6,7) by (simp add: f sp r k0 cong: sum.case_cong)
  then show ?thesis using sp r rne by blast
qed

text \<open>
  Claim C6: when a leaf has overflowed and is split (lines 122 to 130), the key that
  \<^verbatim>\<open>InsertIntoLeaf\<close> passes to \<^verbatim>\<open>InsertIntoParent\<close> is the largest key of the left, original
  leaf after the move; when the parent overflows and is split (lines 203 to 210), the key
  passed to the recursive call is the first key of the new right page. The leaf's keys are
  in order before the insertion, and the page \<^verbatim>\<open>NewPage\<close> hands out is not the page being
  split.
\<close>

theorem split_separator_keys:
  "(pages st lp = Some leaf \<and> body leaf = Leaf es0 nx \<and> sorted (map fst es0) \<and>
    GetMaxSize leaf < int (length (leaf_Insert k v es0)) \<and>
    fresh st = newlp # rest \<and> newlp \<noteq> lp \<longrightarrow>
    (\<exists>st1 left.
       Split lp (set_leaf_entries lp (leaf_Insert k v es0) st) = Inr (newlp, st1) \<and>
       pages st1 lp = Some left \<and> leaf_entries left \<noteq> [] \<and>
       InsertIntoLeaf_split fuel lp (set_leaf_entries lp (leaf_Insert k v es0) st) =
         (case InsertIntoParent fuel lp (Max (fst ` set (leaf_entries left))) newlp st1 of
            Inl e \<Rightarrow> Inl e
          | Inr st2 \<Rightarrow> Inr (UnpinPage newlp True st2)))) \<and>
   (pages t old_node = Some old \<and> parent_page_id old = pp \<and> pp \<noteq> INVALID_PAGE_ID \<and>
    pages t pp = Some ip0 \<and>
    InsertNodeAfter pp old_node k' new_node (pin pp t) = Inr t2 \<and>
    pages t2 pp = Some ip \<and> GetMaxSize ip < GetSize ip \<and>
    fresh t2 = newip # rest' \<and> newip \<noteq> pp \<longrightarrow>
    (\<exists>t3 right.
       Split pp t2 = Inr (newip, t3) \<and>
       pages t3 newip = Some right \<and> internal_entries right \<noteq> [] \<and>
       InsertIntoParent (Suc n) old_node k' new_node t =
         (case InsertIntoParent n pp (fst (hd (internal_entries right))) newip t3 of
            Inl e \<Rightarrow> Inl e
          | Inr t4 \<Rightarrow> Inr (UnpinPage pp True (UnpinPage newip True t4)))))"
  using leaf_split_separator [of st lp leaf es0 nx k v newlp rest fuel]
        internal_split_separator [of t old_node old pp ip0 k' new_node t2 ip newip rest' n]
  by blast

text \<open>
  The split of the full root leaf by key 5 hands key 3 to the new root; the split of the
  root of \<open>split_leaf_tree\<close>, which has room for 2 children, hands key 6 upwards.
\<close>

theorem split_separator_keys_witness:
  "(\<exists>st'. InsertIntoLeaf_split (Suc 0) 1
            (set_leaf_entries 1 (leaf_Insert 5 50 [(1, 10), (2, 20), (3, 30), (4, 40)])
               full_leaf_tree) = Inr st' \<and>
          map_option body (pages st' 3) = Some (Internal [(0, 1), (3, 2)])) \<and>
   (\<exists>st'. InsertIntoParent (Suc (Suc 0)) 2 6 4 split_leaf_tree = Inr st' \<and>
          map_option body (pages st' 6) = Some (Internal [(0, 3), (6, 5)]))"
proof -
  note keys = split_separator_keys
    [where st = full_leaf_tree and lp = 1
       and leaf = "\<lparr>parent_page_id = INVALID_PAGE_ID, max_size = 4,
                     body = Leaf [(1, 10), (2, 20), (3, 30), (4, 40)] INVALID_PAGE_ID\<rparr>"
       and ?es0.0 = "[(1, 10), (2, 20), (3, 30), (4, 40)]" and nx = INVALID_PAGE_ID
       and k = 5 and v = 50 and newlp = 2 and rest = "[3, 4, 5, 6, 7, 8]" and fuel = "Suc 0"
       and t = split_leaf_tree and old_node = 2
       and old = "\<lparr>parent_page_id = 3, max_size = 4,
                    body = Leaf [(4, 40), (5, 50), (6, 60)] 4\<rparr>"
       and pp = 3
       and ?ip0.0 = "\<lparr>parent_page_id = INVALID_PAGE_ID, max_size = 2,
                    body = Internal [(0, 1), (3, 2)]\<rparr>"
       and k' = 6 and new_node = 4
       and ?t2.0 = "set_internal_entries 3 [(0, 1), (3, 2), (6, 4)] (pin 3 split_leaf_tree)"
       and ip = "\<lparr>parent_page_id = INVALID_PAGE_ID, max_size = 2,
                   body = Internal [(0, 1), (3, 2), (6, 4)]\<rparr>"
       and newip = 5 and rest' = "[6, 7, 8]" and n = "Suc 0"]
  have leaf_split: "\<exists>st1 left.
      Split 1 (set_leaf_entries 1 (leaf_Insert 5 50 [(1, 10), (2, 20), (3, 30), (4, 40)])
                 full_leaf_tree) = Inr (2, st1) \<and>
      pages st1 1 = Some left \<and> leaf_entries left \<noteq> [] \<and>
      InsertIntoLeaf_split (Suc 0) 1
        (set_leaf_entries 1 (leaf_Insert 5 50 [(1, 10), (2, 20), (3, 30), (4, 40)])
           full_leaf_tree) =
        (case InsertIntoParent (Suc 0) 1 (Max (fst ` set (leaf_entries left))) 2 st1 of
           Inl e \<Rightarrow> Inl e
         | Inr st2 \<Rightarrow> Inr (UnpinPage 2 True st2))"
    by (rule keys [THEN conjunct1, THEN mp])
       (simp add: full_leaf_tree_def page_defs leaf_Insert_def leaf_Lookup_def)
  have internal_split: "\<exists>t3 right.
      Split 3 (set_internal_entries 3 [(0, 1), (3, 2), (6, 4)] (pin 3 split_leaf_tree)) =
        Inr (5, t3) \<and>
      pages t3 5 = Some right \<and> internal_entries right \<noteq> [] \<and>
      InsertIntoParent (Suc (Suc 0)) 2 6 4 split_leaf_tree =
        (case InsertIntoParent (Suc 0) 3 (fst (hd (internal_entries right))) 5 t3 of
           Inl e \<Rightarrow> Inl e
         | Inr t4 \<Rightarrow> Inr (UnpinPage 3 True (UnpinPage 5 True t4)))"
    by (rule keys [THEN conjunct2, THEN mp])
       (simp add: split_leaf_tree_def page_defs pool_defs InsertNodeAfter_def
          set_internal_entries_def)
  from leaf_split internal_split show ?thesis
    by (simp (no_asm) add: full_leaf_tree_def split_leaf_tree_def page_defs pool_defs
          insert_defs Let_def)
qed

subsection \<open>The sibling strategy of CoalesceOrRedistribute\<close>

lemma pages_frame [simp]:
  "pages (UnpinPage p d st) = pages st"
  "pages (pin p st) = pages st"
  "pages (lockFor m p st) = pages st"
  "pages (unlockFor m p st) = pages st"
  "pages (AddIntoPageSet p st) = pages st"
  by (simp_all add: UnpinPage_def pin_def lockFor_def unlockFor_def AddIntoPageSet_def)

lemma entries_at_frame [simp]:
  "entries_at (UnpinPage p d st) = entries_at st"
  "entries_at (pin p st) = entries_at st"
  "entries_at (lockFor m p st) = entries_at st"
  "entries_at (AddIntoPageSet p st) = entries_at st"
  by (simp_all add: entries_at_def fun_eq_iff)

lemma entries_at_SetParentPageId [simp]:
  "entries_at (SetParentPageId c p st) x = entries_at st x"
  by (simp add: entries_at_def SetParentPageId_def page_entries_def split: option.splits)

lemma entries_at_fold_SetParentPageId [simp]:
  "entries_at (fold (\<lambda>c. SetParentPageId c p) cs st) x = entries_at st x"
  by (induction cs arbitrary: st) simp_all

lemma entries_at_set_leaf_entries:
  "entries_at (set_leaf_entries pid es st) x =
     (if x = pid \<and> (\<exists>p. pages st pid = Some p \<and> IsLeafPage p) then es else entries_at st x)"
  by (auto simp add: entries_at_def set_leaf_entries_def page_entries_def IsLeafPage_def
      split: option.splits payload.splits)

lemma entries_at_set_internal_entries:
  "entries_at (set_internal_entries pid es st) x =
     (if x = pid \<and> (\<exists>p. pages st pid = Some p \<and> \<not> IsLeafPage p) then es else entries_at st x)"
  by (auto simp add: entries_at_def set_internal_entries_def page_entries_def IsLeafPage_def
      split: option.splits payload.splits)

lemma entries_at_set_parent_key:
  "x \<noteq> parent \<or> (\<exists>p. pages st x = Some p \<and> IsLeafPage p) \<Longrightarrow>
   entries_at (set_parent_key parent child ko st) x = entries_at st x"
  by (auto simp add: set_parent_key_def entries_at_set_internal_entries split: option.splits)

lemma kind_frame [simp]:
  "map_option IsLeafPage (pages (set_leaf_entries pid es st) x) = map_option IsLeafPage (pages st x)"
  "map_option IsLeafPage (pages (set_internal_entries pid es' st) x) = map_option IsLeafPage (pages st x)"
  "map_option IsLeafPage (pages (SetParentPageId c p st) x) = map_option IsLeafPage (pages st x)"
  by (auto simp add: set_leaf_entries_def set_internal_entries_def SetParentPageId_def IsLeafPage_def
      split: option.splits payload.splits)

lemma MoveLastToFrontOf_entries:
  assumes "pages st L = Some left" and "pages st node = Some nd" and "L \<noteq> node"
    and "IsLeafPage left = IsLeafPage nd" and "page_entries left \<noteq> []"
    and "IsLeafPage nd \<or> (parent_page_id nd \<noteq> node \<and> parent_page_id nd \<noteq> L)"
  shows "\<exists>st'. MoveLastToFrontOf L node i st = Inr st' \<and>
           entries_at st' node = last (page_entries left) # page_entries nd \<and>
           entries_at st' L = butlast (page_entries left)"
proof (cases "body left")
  case (Leaf es nx)
  then obtain es2 nx2 where nd: "body nd = Leaf es2 nx2"
    using assms(4) by (cases "body nd") (auto simp add: IsLeafPage_def)
  have leafs: "IsLeafPage left" "IsLeafPage nd" using Leaf nd by (simp_all add: IsLeafPage_def)
  have es: "es \<noteq> []" using assms(5) Leaf by (simp add: page_entries_def)
  let ?s1 = "set_leaf_entries L (butlast es) st"
  let ?s2 = "set_leaf_entries node (last es # leaf_entries nd) ?s1"
  have p1: "pages ?s1 node = Some nd" using assms by (simp add: set_leaf_entries_def Leaf)
  have p2L: "\<exists>p. pages ?s2 L = Some p \<and> IsLeafPage p"
    using assms Leaf nd by (auto simp add: set_leaf_entries_def IsLeafPage_def)
  have p2n: "\<exists>p. pages ?s2 node = Some p \<and> IsLeafPage p"
    using assms Leaf nd by (auto simp add: set_leaf_entries_def IsLeafPage_def)
  show ?thesis
    using assms(1,2,3) Leaf nd es leafs p1 p2L p2n
    by (simp add: MoveLastToFrontOf_def entries_at_set_parent_key entries_at_set_leaf_entries
        page_entries_def leaf_entries_def)
next
  case (Internal es)
  then obtain es2 where nd: "body nd = Internal es2"
    using assms(4) by (cases "body nd") (auto simp add: IsLeafPage_def)
  have nl: "\<not> IsLeafPage left" "\<not> IsLeafPage nd" using Internal nd by (simp_all add: IsLeafPage_def)
  have es: "es \<noteq> []" using assms(5) Internal by (simp add: page_entries_def)
  have pp: "parent_page_id nd \<noteq> node" "parent_page_id nd \<noteq> L" using assms(6) nl by auto
  let ?s1 = "set_internal_entries L (butlast es) st"
  have p1: "pages ?s1 node = Some nd" using assms by (simp add: set_internal_entries_def Internal)
  show ?thesis
    using assms(1,2,3) Internal nd es nl p1 pp
    by (simp add: MoveLastToFrontOf_def entries_at_set_parent_key entries_at_set_internal_entries
        page_entries_def internal_entries_def)
qed

lemma MoveFirstToEndOf_entries:
  assumes "pages st R = Some right" and "pages st node = Some nd" and "R \<noteq> node"
    and "IsLeafPage right = IsLeafPage nd" and "page_entries right \<noteq> []"
    and "IsLeafPage nd \<or> (parent_page_id right \<noteq> node \<and> parent_page_id right \<noteq> R)"
  shows "\<exists>st'. MoveFirstToEndOf R node st = Inr st' \<and>
           entries_at st' node = page_entries nd @ [hd (page_entries right)] \<and>
           entries_at st' R = tl (page_entries right)"
proof (cases "body right")
  case (Leaf es nx)
  then obtain es2 nx2 where nd: "body nd = Leaf es2 nx2"
    using assms(4) by (cases "body nd") (auto simp add: IsLeafPage_def)
  have leafs: "IsLeafPage right" "IsLeafPage nd" using Leaf nd by (simp_all add: IsLeafPage_def)
  obtain e rest where es: "es = e # rest" using assms(5) Leaf by (cases es) (auto simp add: page_entries_def)
  let ?s1 = "set_leaf_entries R rest st"
  let ?s2 = "set_leaf_entries node (leaf_entries nd @ [e]) ?s1"
  have p1: "pages ?s1 node = Some nd" using assms by (simp add: set_leaf_entries_def Leaf)
  have p2L: "\<exists>p. pages ?s2 R = Some p \<and> IsLeafPage p"
    using assms Leaf nd by (auto simp add: set_leaf_entries_def IsLeafPage_def)
  have p2n: "\<exists>p. pages ?s2 node = Some p \<and> IsLeafPage p"
    using assms Leaf nd by (auto simp add: set_leaf_entries_def IsLeafPage_def)
  show ?thesis
    using assms(1,2,3) Leaf nd es leafs p1 p2L p2n
    by (simp add: MoveFirstToEndOf_def entries_at_set_parent_key entries_at_set_leaf_entries
        page_entries_def leaf_entries_def)
next
  case (Internal es)
  then obtain es2 where nd: "body nd = Internal es2"
    using assms(4) by (cases "body nd") (auto simp add: IsLeafPage_def)
  have nl: "\<not> IsLeafPage right" "\<not> IsLeafPage nd" using Internal nd by (simp_all add: IsLeafPage_def)
  obtain e rest where es: "es = e # rest" using assms(5) Internal by (cases es) (auto simp add: page_entries_def)
  have pp: "parent_page_id right \<noteq> node" "parent_page_id right \<noteq> R" using assms(6) nl by auto
  let ?s1 = "set_internal_entries R rest st"
  have p1: "pages ?s1 node = Some nd" using assms by (simp add: set_internal_entries_def Internal)
  show ?thesis
    using assms(1,2,3) Internal nd es nl p1 pp
    by (simp add: MoveFirstToEndOf_def entries_at_set_parent_key entries_at_set_internal_entries
        page_entries_def internal_entries_def)
qed


lemma value_index_Some:
  "value_index v es = Some i \<Longrightarrow> 0 \<le> i \<and> nat i < length es \<and> snd (es ! nat i) = v"
proof (induction es arbitrary: i)
  case Nil
  then show ?case by simp
next
  case (Cons e es)
  show ?case
  proof (cases "snd e = v")
    case True
    with Cons.prems show ?thesis by simp
  next
    case False
    with Cons.prems obtain j where j: "value_index v es = Some j" and i: "i = j + 1"
      by auto
    from Cons.IH [OF j] show ?thesis using i by (simp add: nat_add_distrib)
  qed
qed

lemma value_index_exists:
  "v \<in> snd ` set es \<Longrightarrow> \<exists>i. value_index v es = Some i"
  by (induction es) auto

lemma value_index_mem:
  "value_index v es = Some i \<Longrightarrow> v \<in> snd ` set es"
  using value_index_Some [of v es i] by (metis imageI nth_mem)

lemma mem_remove_at:
  assumes "v \<in> snd ` set es" and "nat j < length es" and "snd (es ! nat j) \<noteq> v"
  shows "v \<in> snd ` set (remove_at j es)"
proof -
  from assms(1) obtain m where m: "m < length es" and v: "snd (es ! m) = v"
    by (auto simp add: in_set_conv_nth)
  have ne: "m \<noteq> nat j" using assms(3) v by auto
  have "es ! m \<in> set (take (nat j) es) \<union> set (drop (nat j + 1) es)"
  proof (cases "m < nat j")
    case True
    then have "es ! m = take (nat j) es ! m" by simp
    moreover have "m < length (take (nat j) es)" using True m by simp
    ultimately show ?thesis by (metis UnI1 nth_mem)
  next
    case False
    then have gt: "nat j + 1 \<le> m" using ne by simp
    then have "es ! m = drop (nat j + 1) es ! (m - (nat j + 1))" using m by simp
    moreover have "m - (nat j + 1) < length (drop (nat j + 1) es)" using gt m by simp
    ultimately show ?thesis by (metis UnI2 nth_mem)
  qed
  then show ?thesis using v by (auto simp add: remove_at_def intro!: image_eqI [where x = "es ! m"])
qed

lemma KeyAt_ValueIndex:
  assumes "ValueIndex parent v = Some i"
  shows "\<exists>k. KeyAt parent i = Some k"
proof -
  from assms have vi: "value_index v (internal_entries parent) = Some i"
    by (simp add: ValueIndex_def)
  from value_index_Some [OF vi] have "0 \<le> i" "nat i < length (internal_entries parent)" by auto
  then have "i < GetSize parent"
    by (cases "body parent") (auto simp add: GetSize_def internal_entries_def)
  then show ?thesis using \<open>0 \<le> i\<close> by (simp add: KeyAt_def)
qed

lemma ValueIndex_internal:
  "ValueIndex parent v = Some i \<Longrightarrow> \<not> IsLeafPage parent"
  by (cases "body parent") (auto simp add: ValueIndex_def internal_entries_def IsLeafPage_def)

lemma MoveAllTo_entries:
  assumes "pages st node = Some nd" and "pages st S = Some sib" and "S \<noteq> node"
    and "IsLeafPage sib = IsLeafPage nd"
    and "pages st (parent_page_id nd) = Some parent" and "KeyAt parent i = Some mk"
  shows "\<exists>st' moved. MoveAllTo node S i st = Inr st' \<and>
           entries_at st' node = [] \<and>
           entries_at st' S = page_entries sib @ moved \<and>
           map snd moved = map snd (page_entries nd) \<and>
           (IsLeafPage nd \<longrightarrow> moved = page_entries nd) \<and>
           (\<forall>x. x \<noteq> node \<and> x \<noteq> S \<longrightarrow>
                map_option body (pages st' x) = map_option body (pages st x))"
proof (cases "body nd")
  case (Leaf es nx)
  then obtain es2 nx2 where sb: "body sib = Leaf es2 nx2"
    using assms(4) by (cases "body sib") (auto simp add: IsLeafPage_def)
  show ?thesis
    using assms(1,2,3) Leaf sb
    by (auto simp add: MoveAllTo_def entries_at_def page_entries_def leaf_entries_def IsLeafPage_def)
next
  case (Internal es)
  then obtain es2 where sb: "body sib = Internal es2"
    using assms(4) by (cases "body sib") (auto simp add: IsLeafPage_def)
  have nl: "\<not> IsLeafPage nd" using Internal by (simp add: IsLeafPage_def)
  let ?moved = "(case es of [] \<Rightarrow> [] | e0 # rest \<Rightarrow> (mk, snd e0) # rest)"
  let ?st' = "fold (\<lambda>child. SetParentPageId child S) (map snd es)
                (st\<lparr>pages := (pages st)
                   (node \<mapsto> nd\<lparr>body := Internal []\<rparr>,
                    S \<mapsto> sib\<lparr>body := Internal (internal_entries sib @ ?moved)\<rparr>)\<rparr>)"
  have m: "MoveAllTo node S i st = Inr ?st'"
    using assms Internal sb by (simp add: MoveAllTo_def)
  have "map snd ?moved = map snd es" by (cases es) simp_all
  then show ?thesis
    using assms(3) Internal sb nl unfolding m
    apply (intro exI [where x = ?st'] exI [where x = ?moved])
    apply (simp add: fold_SetParentPageId_body)
    apply (auto simp add: entries_at_def page_entries_def internal_entries_def)
    done
qed

lemma internal_entries_body:
  "map_option body (pages st' x) = map_option body (pages st x) \<Longrightarrow> pages st x = Some p \<Longrightarrow>
   \<exists>p'. pages st' x = Some p' \<and> internal_entries p' = internal_entries p \<and> body p' = body p"
  by (auto simp add: internal_entries_def)

lemma parent_Remove_ok:
  assumes "pages st pp = Some parent" and "ValueIndex parent c = Some i"
  shows "parent_Remove pp c st =
           Inr (set_internal_entries pp (remove_at i (internal_entries parent)) st)"
  using assms by (simp add: parent_Remove_def)

lemma set_internal_entries_pages:
  assumes "pages st pp = Some parent" and "\<not> IsLeafPage parent"
  shows "pages (set_internal_entries pp es st) = (pages st)(pp \<mapsto> parent\<lparr>body := Internal es\<rparr>)"
  using assms by (cases "body parent") (simp_all add: set_internal_entries_def IsLeafPage_def)

lemma Coalesce_left:
  assumes "pages st pp = Some parent" and "ValueIndex parent node = Some i"
    and "pages st node = Some nd" and "parent_page_id nd = pp"
    and "pages st L = Some left" and "L \<noteq> node" and "pp \<noteq> node" and "pp \<noteq> L"
    and "IsLeafPage left = IsLeafPage nd"
  shows "\<exists>flag st' moved. Coalesce L node pp 0 st = Inr (flag, st') \<and>
           entries_at st' node = [] \<and>
           entries_at st' L = page_entries left @ moved \<and>
           map snd moved = map snd (page_entries nd) \<and>
           (IsLeafPage nd \<longrightarrow> moved = page_entries nd)"
proof -
  from KeyAt_ValueIndex [OF assms(2)] obtain mk where mk: "KeyAt parent i = Some mk" by blast
  have ppn: "pages st (parent_page_id nd) = Some parent" using assms(1,4) by simp
  from MoveAllTo_entries [OF assms(3) assms(5) assms(6) assms(9) ppn mk]
  obtain st1 moved where m: "MoveAllTo node L i st = Inr st1"
    and e1: "entries_at st1 node = []" "entries_at st1 L = page_entries left @ moved"
    and mv: "map snd moved = map snd (page_entries nd)" "IsLeafPage nd \<longrightarrow> moved = page_entries nd"
    and fr: "\<forall>x. x \<noteq> node \<and> x \<noteq> L \<longrightarrow> map_option body (pages st1 x) = map_option body (pages st x)"
    by blast
  from fr assms(7,8) have "map_option body (pages st1 pp) = map_option body (pages st pp)" by simp
  from internal_entries_body [OF this assms(1)]
  obtain p1 where p1: "pages st1 pp = Some p1" "internal_entries p1 = internal_entries parent"
    "body p1 = body parent"
    by blast
  have v1: "ValueIndex p1 node = Some i" using assms(2) p1 by (simp add: ValueIndex_def)
  have nl: "\<not> IsLeafPage p1" by (rule ValueIndex_internal [OF v1])
  let ?st3 = "set_internal_entries pp (remove_at i (internal_entries p1)) st1"
  have r: "parent_Remove pp node st1 = Inr ?st3" by (rule parent_Remove_ok [OF p1(1) v1])
  have p3: "pages ?st3 = (pages st1)(pp \<mapsto> p1\<lparr>body := Internal (remove_at i (internal_entries p1))\<rparr>)"
    by (rule set_internal_entries_pages [OF p1(1) nl])
  have e3: "entries_at ?st3 node = []" "entries_at ?st3 L = page_entries left @ moved"
    using e1 assms(7,8) by (simp_all add: entries_at_def p3)
  have "Coalesce L node pp 0 st =
          Inr (GetSize (p1\<lparr>body := Internal (remove_at i (internal_entries p1))\<rparr>)
                 < GetMinSize (p1\<lparr>body := Internal (remove_at i (internal_entries p1))\<rparr>), ?st3)"
    using assms(1,2) by (simp add: Coalesce_def m r p3)
  then show ?thesis using e3 mv by blast
qed

lemma Coalesce_right:
  assumes "pages st pp = Some parent" and "ValueIndex parent node = Some i"
    and "ValueIndex parent R = Some j"
    and "pages st node = Some nd" and "parent_page_id nd = pp"
    and "pages st R = Some right" and "R \<noteq> node" and "pp \<noteq> node" and "pp \<noteq> R"
    and "IsLeafPage right = IsLeafPage nd"
  shows "\<exists>flag st' moved. Coalesce R node pp 1 st = Inr (flag, st') \<and>
           entries_at st' node = [] \<and>
           entries_at st' R = page_entries right @ moved \<and>
           map snd moved = map snd (page_entries nd) \<and>
           (IsLeafPage nd \<longrightarrow> moved = page_entries nd)"
proof -
  from KeyAt_ValueIndex [OF assms(3)] obtain mk where mk: "KeyAt parent j = Some mk" by blast
  have ppn: "pages st (parent_page_id nd) = Some parent" using assms(1,5) by simp
  from MoveAllTo_entries [OF assms(4) assms(6) assms(7) assms(10) ppn mk]
  obtain st1 moved where m: "MoveAllTo node R j st = Inr st1"
    and e1: "entries_at st1 node = []" "entries_at st1 R = page_entries right @ moved"
    and mv: "map snd moved = map snd (page_entries nd)" "IsLeafPage nd \<longrightarrow> moved = page_entries nd"
    and fr: "\<forall>x. x \<noteq> node \<and> x \<noteq> R \<longrightarrow> map_option body (pages st1 x) = map_option body (pages st x)"
    by blast
  from fr assms(8,9) have "map_option body (pages st1 pp) = map_option body (pages st pp)" by simp
  from internal_entries_body [OF this assms(1)]
  obtain p1 where p1: "pages st1 pp = Some p1" "internal_entries p1 = internal_entries parent"
    "body p1 = body parent"
    by blast
  have v1: "ValueIndex p1 R = Some j" using assms(3) p1 by (simp add: ValueIndex_def)
  have nl: "\<not> IsLeafPage p1" by (rule ValueIndex_internal [OF v1])
  let ?es2 = "remove_at j (internal_entries p1)"
  let ?p2 = "p1\<lparr>body := Internal ?es2\<rparr>"
  let ?st2 = "set_internal_entries pp ?es2 st1"
  have r: "parent_Remove pp R st1 = Inr ?st2" by (rule parent_Remove_ok [OF p1(1) v1])
  have p2: "pages ?st2 = (pages st1)(pp \<mapsto> ?p2)"
    by (rule set_internal_entries_pages [OF p1(1) nl])
  have vj: "nat j < length (internal_entries p1)" "snd (internal_entries p1 ! nat j) = R"
    using value_index_Some [of R "internal_entries p1" j] v1 by (simp_all add: ValueIndex_def)
  have "node \<in> snd ` set (internal_entries p1)"
    using value_index_mem [of node "internal_entries parent" i] assms(2) p1(2)
    by (simp add: ValueIndex_def)
  then have "node \<in> snd ` set ?es2"
    using vj assms(7) by (intro mem_remove_at) auto
  from value_index_exists [OF this] obtain i2 where i2: "ValueIndex ?p2 node = Some i2"
    by (auto simp add: ValueIndex_def internal_entries_def)
  have nl2: "\<not> IsLeafPage ?p2" by (simp add: IsLeafPage_def)
  have pp2: "pages ?st2 pp = Some ?p2" by (simp add: p2)
  let ?es3 = "(internal_entries ?p2)[nat i2 := (fst (internal_entries ?p2 ! nat i2), R)]"
  let ?st3 = "set_internal_entries pp ?es3 ?st2"
  have sv: "parent_SetValueAt pp node R ?st2 = Inr ?st3"
    using pp2 i2 by (simp add: parent_SetValueAt_def)
  have p3: "pages ?st3 = (pages ?st2)(pp \<mapsto> ?p2\<lparr>body := Internal ?es3\<rparr>)"
    by (rule set_internal_entries_pages [OF pp2 nl2])
  have e3: "entries_at ?st3 node = []" "entries_at ?st3 R = page_entries right @ moved"
    using e1 assms(8,9) by (simp_all add: entries_at_def p3 p2)
  have "\<exists>flag. Coalesce R node pp 1 st = Inr (flag, ?st3)"
    using assms(1,3) by (simp add: Coalesce_def m r sv p3)
  then show ?thesis using e3 mv by blast
qed


lemma pages_GetPage_txn [simp]: "pages (snd (GetPage_txn p tx m s)) = pages s"
  by (simp add: GetPage_txn_def FetchPage_def split: option.splits)

lemma fst_GetPage_txn [simp]: "fst (GetPage_txn p tx m s) = pages s p"
  by (simp add: GetPage_txn_def FetchPage_def split: option.splits)

lemma look_left_none: "idx = 0 \<Longrightarrow> look_left node pp idx tx s = Inr (Inr (None, s))"
  by (simp add: look_left_def)

lemma look_left_some:
  assumes "pages s pp = Some parent" and "1 \<le> idx" and "ValueAt parent (idx - 1) = Some L"
    and "pages s L = Some left"
  shows "look_left node pp idx tx s =
           (if GetMinSize left < GetSize left then
              (case MoveLastToFrontOf L node 1 (snd (GetPage_txn L tx 2 s)) of
                 Inl e \<Rightarrow> Inl e
               | Inr st2 \<Rightarrow>
                   Inr (Inl (False, UnpinPage pp True
                                      (if \<not> tx then UnpinPage L True st2 else st2))))
            else Inr (Inr (Some L, snd (GetPage_txn L tx 2 s))))"
  using assms
  by (simp add: look_left_def Redistribute_def split: prod.splits option.splits)
     (auto simp add: GetPage_txn_def FetchPage_def)

lemma look_right_none:
  assumes "pages s pp = Some parent" and "\<not> idx + 1 < GetSize parent"
  shows "look_right node pp idx l tx s = Inr (Inr (None, s))"
  using assms by (simp add: look_right_def)

lemma look_right_some:
  assumes "pages s pp = Some parent" and "idx + 1 < GetSize parent"
    and "ValueAt parent (idx + 1) = Some R" and "pages s R = Some right"
  shows "look_right node pp idx l tx s =
           (if GetMinSize right < GetSize right then
              (case MoveFirstToEndOf R node (snd (GetPage_txn R tx 2 s)) of
                 Inl e \<Rightarrow> Inl e
               | Inr st2 \<Rightarrow>
                   Inr (Inl (False, UnpinPage pp True
                     (if \<not> tx then
                        (case l of
                           None \<Rightarrow> UnpinPage R True st2
                         | Some leftSiblingPageId \<Rightarrow>
                             UnpinPage leftSiblingPageId False (UnpinPage R True st2))
                      else st2))))
            else Inr (Inr (Some R, snd (GetPage_txn R tx 2 s))))"
  using assms
  by (simp add: look_right_def Redistribute_def split: prod.splits option.splits)
     (auto simp add: GetPage_txn_def FetchPage_def)

lemma CoalesceOrRedistribute_parent:
  assumes "pages st node = Some nd" and "GetSize nd < GetMinSize nd"
    and "parent_page_id nd = pp" and "pp \<noteq> INVALID_PAGE_ID"
    and "pages st pp = Some parent" and "ValueIndex parent node = Some idx"
  shows "CoalesceOrRedistribute (Suc n) node tx st =
     (case look_left node pp idx tx (pin pp st) of
        Inl e \<Rightarrow> Inl e
      | Inr (Inl r) \<Rightarrow> Inr r
      | Inr (Inr (leftSibling, st2)) \<Rightarrow>
          (case look_right node pp idx leftSibling tx st2 of
             Inl e \<Rightarrow> Inl e
           | Inr (Inl r) \<Rightarrow> Inr r
           | Inr (Inr (rightSibling, st3)) \<Rightarrow>
               (case merge_siblings node pp leftSibling rightSibling tx st3 of
                  Inl e \<Rightarrow> Inl e
                | Inr st4 \<Rightarrow>
                    (case CoalesceOrRedistribute n pp tx st4 of
                       Inl e \<Rightarrow> Inl e
                     | Inr (del, st5) \<Rightarrow>
                         let st6 = UnpinPage pp True st5 in
                         if del then
                           (if tx then
                              Inr (True, st6\<lparr>deleted_page_set :=
                                     insert pp (deleted_page_set st6)\<rparr>)
                            else
                              (case DeletePage pp st6 of
                                 (False, st7) \<Rightarrow> Inl (AssertionFailed 353)
                               | (True, st7) \<Rightarrow> Inr (True, st7)))
                         else Inr (True, st6)))))"
  using assms by - (hypsubst, simp add: GetInternalPage_def FetchPage_def)


lemma rich_not_empty:
  "GetMinSize p < GetSize p \<Longrightarrow> 0 \<le> max_size p \<Longrightarrow> page_entries p \<noteq> []"
  by (cases "body p") (auto simp add: GetMinSize_def GetSize_def page_entries_def split: if_splits)

lemma redistribute_left_case:
  assumes "pages st node = Some nd" and "GetSize nd < GetMinSize nd"
    and "parent_page_id nd = pp" and "pp \<noteq> INVALID_PAGE_ID"
    and "pages st pp = Some parent" and "ValueIndex parent node = Some idx" and "pp \<noteq> node"
    and "1 \<le> idx" and "ValueAt parent (idx - 1) = Some L" and "pages st L = Some left"
    and "L \<noteq> node" and "L \<noteq> pp" and "IsLeafPage left = IsLeafPage nd"
    and "GetMinSize left < GetSize left" and "0 \<le> max_size left"
  shows "\<exists>st'. CoalesceOrRedistribute (Suc n) node tx st = Inr (False, st') \<and>
           entries_at st' node = last (page_entries left) # page_entries nd \<and>
           entries_at st' L = butlast (page_entries left)"
proof -
  let ?s = "snd (GetPage_txn L tx 2 (pin pp st))"
  have ne: "page_entries left \<noteq> []" by (rule rich_not_empty [OF assms(14,15)])
  have "\<exists>st2. MoveLastToFrontOf L node 1 ?s = Inr st2 \<and>
           entries_at st2 node = last (page_entries left) # page_entries nd \<and>
           entries_at st2 L = butlast (page_entries left)"
    using assms(1,3,7,10,11,12,13) ne by (intro MoveLastToFrontOf_entries) auto
  then obtain st2 where m: "MoveLastToFrontOf L node 1 ?s = Inr st2"
    and e: "entries_at st2 node = last (page_entries left) # page_entries nd"
       "entries_at st2 L = butlast (page_entries left)"
    by blast
  have ll: "look_left node pp idx tx (pin pp st) =
              Inr (Inl (False, UnpinPage pp True (if \<not> tx then UnpinPage L True st2 else st2)))"
    using look_left_some [of "pin pp st" pp parent idx L left node tx] assms(5,8,9,10,14)
    by (simp add: m)
  show ?thesis
    unfolding CoalesceOrRedistribute_parent [OF assms(1-6)] ll
    using e by simp
qed

lemma look_left_poor_or_none:
  assumes "pages st pp = Some parent"
    and "idx = 0 \<or> (1 \<le> idx \<and> ValueAt parent (idx - 1) = Some L \<and> pages st L = Some left \<and>
           \<not> GetMinSize left < GetSize left)"
  shows "\<exists>l s. look_left node pp idx tx (pin pp st) = Inr (Inr (l, s)) \<and> pages s = pages st \<and>
           (l = None \<longleftrightarrow> idx = 0) \<and> (idx \<noteq> 0 \<longrightarrow> l = Some L)"
proof (cases "idx = 0")
  case True
  then show ?thesis by (simp add: look_left_none)
next
  case False
  with assms(2) have h: "1 \<le> idx" "ValueAt parent (idx - 1) = Some L" "pages st L = Some left"
    "\<not> GetMinSize left < GetSize left" by auto
  show ?thesis
    using look_left_some [of "pin pp st" pp parent idx L left node tx] assms(1) h False
    by simp
qed

lemma redistribute_right_case:
  assumes "pages st node = Some nd" and "GetSize nd < GetMinSize nd"
    and "parent_page_id nd = pp" and "pp \<noteq> INVALID_PAGE_ID"
    and "pages st pp = Some parent" and "ValueIndex parent node = Some idx" and "pp \<noteq> node"
    and "idx = 0 \<or> (1 \<le> idx \<and> ValueAt parent (idx - 1) = Some L \<and> pages st L = Some left \<and>
           \<not> GetMinSize left < GetSize left)"
    and "idx + 1 < GetSize parent" and "ValueAt parent (idx + 1) = Some R"
    and "pages st R = Some right" and "R \<noteq> node" and "R \<noteq> pp"
    and "IsLeafPage right = IsLeafPage nd" and "parent_page_id right = pp"
    and "GetMinSize right < GetSize right" and "0 \<le> max_size right"
  shows "\<exists>st'. CoalesceOrRedistribute (Suc n) node tx st = Inr (False, st') \<and>
           entries_at st' node = page_entries nd @ [hd (page_entries right)] \<and>
           entries_at st' R = tl (page_entries right)"
proof -
  from look_left_poor_or_none [OF assms(5,8), of node tx]
  obtain l s where ll: "look_left node pp idx tx (pin pp st) = Inr (Inr (l, s))"
    and ps: "pages s = pages st"
    by blast
  let ?s = "snd (GetPage_txn R tx 2 s)"
  have ne: "page_entries right \<noteq> []" by (rule rich_not_empty [OF assms(16,17)])
  have "\<exists>st2. MoveFirstToEndOf R node ?s = Inr st2 \<and>
           entries_at st2 node = page_entries nd @ [hd (page_entries right)] \<and>
           entries_at st2 R = tl (page_entries right)"
    using assms(1,7,11,12,13,14,15) ne ps by (intro MoveFirstToEndOf_entries) auto
  then obtain st2 where m: "MoveFirstToEndOf R node ?s = Inr st2"
    and e: "entries_at st2 node = page_entries nd @ [hd (page_entries right)]"
       "entries_at st2 R = tl (page_entries right)"
    by blast
  let ?st' = "UnpinPage pp True
                (if \<not> tx then
                   (case l of
                      None \<Rightarrow> UnpinPage R True st2
                    | Some leftSiblingPageId \<Rightarrow>
                        UnpinPage leftSiblingPageId False (UnpinPage R True st2))
                 else st2)"
  have lr: "look_right node pp idx l tx s = Inr (Inl (False, ?st'))"
    using look_right_some [of s pp parent idx R right node l tx] assms(5,9,10,11,16) ps
    by (simp add: m)
  have e': "entries_at ?st' = entries_at st2"
    by (cases l; cases tx) simp_all
  show ?thesis
    unfolding CoalesceOrRedistribute_parent [OF assms(1-6)] ll
    using e e' by (simp add: lr)
qed


lemma look_right_poor_or_none:
  assumes "pages s pp = Some parent"
    and "\<not> idx + 1 < GetSize parent \<or>
         (ValueAt parent (idx + 1) = Some R \<and> pages s R = Some right \<and>
          \<not> GetMinSize right < GetSize right)"
  shows "\<exists>r s3. look_right node pp idx l tx s = Inr (Inr (r, s3)) \<and> pages s3 = pages s \<and>
           (r = None \<longleftrightarrow> \<not> idx + 1 < GetSize parent) \<and> (r \<noteq> None \<longrightarrow> r = Some R)"
proof (cases "idx + 1 < GetSize parent")
  case False
  then show ?thesis using assms(1) by (simp add: look_right_none)
next
  case True
  with assms(2) have h: "ValueAt parent (idx + 1) = Some R" "pages s R = Some right"
    "\<not> GetMinSize right < GetSize right" by auto
  show ?thesis
    using look_right_some [of s pp parent idx R right node l tx] assms(1) h True
    by simp
qed

lemma ValueAt_ValueIndex:
  assumes "ValueAt parent i = Some c" and "\<not> IsLeafPage parent"
  shows "\<exists>j. ValueIndex parent c = Some j"
proof -
  from assms obtain es where b: "body parent = Internal es"
    by (cases "body parent") (auto simp add: IsLeafPage_def)
  from assms(1) have "0 \<le> i" "i < int (length es)" "c = snd (es ! nat i)"
    using b by (auto simp add: ValueAt_def GetSize_def internal_entries_def split: if_splits)
  then have "c \<in> snd ` set es" by (metis imageI nat_less_iff nth_mem)
  from value_index_exists [OF this] show ?thesis
    using b by (simp add: ValueIndex_def internal_entries_def)
qed

text \<open>
  The recursion on the parent ends: in a levelled store the merges keep the levels, so a
  bound above the number of levels between the page and the top is never used up.
\<close>

lemma levelled_pages: "pages st' = pages st \<Longrightarrow> levelled lv h st' = levelled lv h st"
  by (simp add: levelled_def)

lemma AdjustRoot_fuel: "AdjustRoot r st = Inl e \<Longrightarrow> e \<noteq> OutOfFuel"
  by (auto simp: AdjustRoot_def Let_def split: option.splits list.splits prod.splits if_splits)

lemma MoveAllTo_fuel: "MoveAllTo a b i st = Inl e \<Longrightarrow> e \<noteq> OutOfFuel"
  by (auto simp: MoveAllTo_def split: option.splits payload.splits)

lemma MoveFirstToEndOf_fuel: "MoveFirstToEndOf a b st = Inl e \<Longrightarrow> e \<noteq> OutOfFuel"
  by (auto simp: MoveFirstToEndOf_def split: option.splits payload.splits list.splits)

lemma MoveLastToFrontOf_fuel: "MoveLastToFrontOf a b i st = Inl e \<Longrightarrow> e \<noteq> OutOfFuel"
  by (auto simp: MoveLastToFrontOf_def split: option.splits payload.splits if_splits)

lemma Redistribute_fuel: "Redistribute a b i st = Inl e \<Longrightarrow> e \<noteq> OutOfFuel"
  by (auto simp: Redistribute_def split: if_splits dest: MoveFirstToEndOf_fuel MoveLastToFrontOf_fuel)

lemma parent_Remove_fuel: "parent_Remove a b st = Inl e \<Longrightarrow> e \<noteq> OutOfFuel"
  by (auto simp: parent_Remove_def split: option.splits)

lemma parent_SetValueAt_fuel: "parent_SetValueAt a b c st = Inl e \<Longrightarrow> e \<noteq> OutOfFuel"
  by (auto simp: parent_SetValueAt_def split: option.splits)

lemma Coalesce_fuel: "Coalesce a b c i st = Inl e \<Longrightarrow> e \<noteq> OutOfFuel"
  by (auto simp: Coalesce_def split: option.splits sum.splits if_splits
      dest: MoveAllTo_fuel parent_Remove_fuel parent_SetValueAt_fuel)

lemma look_left_fuel: "look_left a b i t st = Inl e \<Longrightarrow> e \<noteq> OutOfFuel"
  by (auto simp: look_left_def split: option.splits sum.splits if_splits prod.splits
      dest: Redistribute_fuel)

lemma look_right_fuel: "look_right a b i l t st = Inl e \<Longrightarrow> e \<noteq> OutOfFuel"
  by (auto simp: look_right_def split: option.splits sum.splits if_splits prod.splits
      dest: Redistribute_fuel)

lemma merge_siblings_fuel: "merge_siblings a b l r t st = Inl e \<Longrightarrow> e \<noteq> OutOfFuel"
  by (auto simp: merge_siblings_def split: option.splits sum.splits if_splits prod.splits
      dest: Coalesce_fuel)

lemma ValueAt_child:
  "ValueAt p i = Some c \<Longrightarrow> \<not> IsLeafPage p \<Longrightarrow> c \<in> children p"
  by (auto simp add: ValueAt_def GetSize_def IsLeafPage_def internal_entries_def children_def
      split: if_splits payload.splits)

lemma look_left_sibling:
  assumes "look_left node pp idx tx st = Inr (Inr (l, st2))"
    and "pages st pp = Some parent" and "\<not> IsLeafPage parent"
  shows "pages st2 = pages st \<and>
         (\<forall>L. l = Some L \<longrightarrow> L \<in> children parent)"
  using assms
  by (auto simp add: look_left_def GetPage_txn_def FetchPage_def
      split: if_splits option.splits prod.splits sum.splits dest: ValueAt_child)

lemma look_right_sibling:
  assumes "look_right node pp idx l tx st = Inr (Inr (r, st3))"
    and "pages st pp = Some parent" and "\<not> IsLeafPage parent"
  shows "pages st3 = pages st \<and>
         (\<forall>R. r = Some R \<longrightarrow> R \<in> children parent)"
  using assms
  by (auto simp add: look_right_def GetPage_txn_def FetchPage_def
      split: if_splits option.splits prod.splits sum.splits dest: ValueAt_child)

lemma pages_SetParentPageId:
  "pages (SetParentPageId c s st) p =
     (if p = c then map_option (\<lambda>pg. pg\<lparr>parent_page_id := s\<rparr>) (pages st p) else pages st p)"
  by (simp add: SetParentPageId_def split: option.splits)

lemma pages_fold_SetParentPageId:
  "pages (fold (\<lambda>c. SetParentPageId c s) cs st) p =
     (if p \<in> set cs then map_option (\<lambda>pg. pg\<lparr>parent_page_id := s\<rparr>) (pages st p)
      else pages st p)"
  by (induction cs arbitrary: st)
     (auto simp add: pages_SetParentPageId option.map_comp comp_def split: option.splits)

lemma levelled_step:
  assumes "levelled lv h st"
    and "\<And>p pg'. pages st' p = Some pg' \<Longrightarrow>
           \<exists>pg. pages st p = Some pg \<and>
             (parent_page_id pg' = parent_page_id pg \<or> lv (parent_page_id pg') = Suc (lv p)) \<and>
             (\<forall>c \<in> children pg'. c \<in> children pg \<or> lv p = Suc (lv c))"
  shows "levelled lv h st'"
  unfolding levelled_def
proof (intro allI impI)
  fix p pg'
  assume "pages st' p = Some pg'"
  from assms(2) [OF this] obtain pg where pg: "pages st p = Some pg"
    and par: "parent_page_id pg' = parent_page_id pg \<or> lv (parent_page_id pg') = Suc (lv p)"
    and ch: "\<forall>c \<in> children pg'. c \<in> children pg \<or> lv p = Suc (lv c)"
    by blast
  from assms(1) pg have l: "p \<noteq> INVALID_PAGE_ID" "lv p \<le> h"
    "parent_page_id pg \<noteq> INVALID_PAGE_ID \<longrightarrow> lv (parent_page_id pg) = Suc (lv p)"
    "\<forall>c \<in> children pg. lv p = Suc (lv c)"
    unfolding levelled_def by blast+
  show "p \<noteq> INVALID_PAGE_ID \<and> lv p \<le> h \<and>
        (parent_page_id pg' \<noteq> INVALID_PAGE_ID \<longrightarrow> lv (parent_page_id pg') = Suc (lv p)) \<and>
        (\<forall>c \<in> children pg'. lv p = Suc (lv c))"
    using l par ch by auto
qed

lemma children_update [simp]:
  "children (pg\<lparr>body := Leaf es nx\<rparr>) = {}"
  "children (pg\<lparr>body := Internal es'\<rparr>) = snd ` set es'"
  "children (pg\<lparr>parent_page_id := q\<rparr>) = children pg"
  by (simp_all add: internal_entries_def children_def)

lemma MoveAllTo_levelled:
  assumes m: "MoveAllTo node sib i st = Inr st'" and l: "levelled lv h st"
    and s: "lv sib = lv node"
  shows "levelled lv h st'"
proof -
  from m obtain n sb where n: "pages st node = Some n" and sb: "pages st sib = Some sb"
    by (auto simp add: MoveAllTo_def split: option.splits)
  from l n have nc: "\<forall>c \<in> children n. lv node = Suc (lv c)"
    unfolding levelled_def by blast
  show ?thesis
  proof (cases "body n")
    case (Leaf es nx)
    with m n sb have st': "st' = st\<lparr>pages := (pages st)
                     (node \<mapsto> n\<lparr>body := Leaf [] nx\<rparr>,
                      sib \<mapsto> sb\<lparr>body := Leaf (leaf_entries sb @ es) nx\<rparr>)\<rparr>"
      by (simp add: MoveAllTo_def)
    show ?thesis
      by (rule levelled_step [OF l]) (auto simp add: st' n sb split: if_splits)
  next
    case (Internal es)
    with m n sb obtain mk where st': "st' = fold (\<lambda>child. SetParentPageId child sib) (map snd es)
                          (st\<lparr>pages := (pages st)
                             (node \<mapsto> n\<lparr>body := Internal []\<rparr>,
                              sib \<mapsto> sb\<lparr>body := Internal (internal_entries sb @
                                 (case es of [] \<Rightarrow> [] | e0 # rest \<Rightarrow> (mk, snd e0) # rest))\<rparr>)\<rparr>)"
      by (auto simp add: MoveAllTo_def split: option.splits)
    have e: "snd ` set (case es of [] \<Rightarrow> [] | e0 # rest \<Rightarrow> (mk, snd e0) # rest) = snd ` set es"
      by (cases es) auto
    from Internal have ie: "children n = snd ` set es" by (simp add: internal_entries_def children_def)
    have isb: "snd ` set (internal_entries sb) = children sb" by (simp add: children_def)
    show ?thesis
    proof (rule levelled_step [OF l])
      fix p pg'
      assume a: "pages st' p = Some pg'"
      show "\<exists>pg. pages st p = Some pg \<and>
             (parent_page_id pg' = parent_page_id pg \<or> lv (parent_page_id pg') = Suc (lv p)) \<and>
             (\<forall>c \<in> children pg'. c \<in> children pg \<or> lv p = Suc (lv c))"
        using a nc s
        by (auto simp add: st' pages_fold_SetParentPageId n sb ie image_Un e isb
            split: if_splits)
    qed
  qed
qed

lemma set_internal_entries_levelled:
  assumes "levelled lv h st" and "pages st p = Some pg"
    and "\<forall>c \<in> snd ` set es. c \<in> children pg \<or> lv p = Suc (lv c)"
  shows "levelled lv h (set_internal_entries p es st)"
  by (rule levelled_step [OF assms(1)])
     (use assms(2,3) in \<open>auto simp add: set_internal_entries_def split: option.splits payload.splits if_splits\<close>)

lemma parent_Remove_levelled:
  assumes "parent_Remove p c st = Inr st'" and "levelled lv h st"
  shows "levelled lv h st'"
proof -
  from assms(1) obtain pg i where pg: "pages st p = Some pg"
    and st': "st' = set_internal_entries p (remove_at i (internal_entries pg)) st"
    by (auto simp add: parent_Remove_def split: option.splits)
  have "set (remove_at i (internal_entries pg)) \<subseteq> set (internal_entries pg)"
    unfolding remove_at_def by (auto dest: in_set_takeD in_set_dropD)
  then have "\<forall>c \<in> snd ` set (remove_at i (internal_entries pg)). c \<in> children pg"
    by (auto simp add: children_def)
  with set_internal_entries_levelled [OF assms(2) pg] show ?thesis unfolding st' by blast
qed

lemma parent_SetValueAt_levelled:
  assumes "parent_SetValueAt p c v st = Inr st'" and "levelled lv h st" and "lv p = Suc (lv v)"
  shows "levelled lv h st'"
proof -
  from assms(1) obtain pg i where pg: "pages st p = Some pg"
    and st': "st' = set_internal_entries p
                ((internal_entries pg)[nat i := (fst (internal_entries pg ! nat i), v)]) st"
    by (auto simp add: parent_SetValueAt_def split: option.splits)
  have "set ((internal_entries pg)[nat i := (fst (internal_entries pg ! nat i), v)])
          \<subseteq> insert (fst (internal_entries pg ! nat i), v) (set (internal_entries pg))"
    by (rule set_update_subset_insert)
  then have "\<forall>c \<in> snd ` set ((internal_entries pg)[nat i := (fst (internal_entries pg ! nat i), v)]).
               c \<in> children pg \<or> lv p = Suc (lv c)"
    using assms(3) by (auto simp add: children_def)
  with set_internal_entries_levelled [OF assms(2) pg] show ?thesis unfolding st' by blast
qed

lemma Coalesce_levelled:
  assumes c: "Coalesce nb node pp i st = Inr (f, st')" and l: "levelled lv h st"
    and s: "lv nb = lv node" and p: "lv pp = Suc (lv nb)"
  shows "levelled lv h st'"
proof (cases "i = 0")
  case True
  with c obtain j st1 where "MoveAllTo node nb j st = Inr st1" "parent_Remove pp node st1 = Inr st'"
    by (auto simp add: Coalesce_def split: option.splits sum.splits if_splits)
  then show ?thesis
    using MoveAllTo_levelled [OF _ l s] parent_Remove_levelled by blast
next
  case False
  with c obtain j st1 st2 where "MoveAllTo node nb j st = Inr st1"
    "parent_Remove pp nb st1 = Inr st2" "parent_SetValueAt pp node nb st2 = Inr st'"
    by (auto simp add: Coalesce_def split: option.splits sum.splits if_splits)
  then show ?thesis
    using MoveAllTo_levelled [OF _ l s] parent_Remove_levelled parent_SetValueAt_levelled [OF _ _ p]
    by blast
qed

lemma merge_siblings_levelled:
  assumes m: "merge_siblings node pp l r tx st = Inr st4" and lev: "levelled lv h st"
    and l: "\<forall>L. l = Some L \<longrightarrow> lv L = lv node" and r: "\<forall>R. r = Some R \<longrightarrow> lv R = lv node"
    and p: "lv pp = Suc (lv node)"
  shows "levelled lv h st4"
proof (cases l)
  case (Some L)
  with m obtain f st1 where c: "Coalesce L node pp 0 st = Inr (f, st1)"
    and p4: "pages st4 = pages st1"
    by (auto simp add: merge_siblings_def split: sum.splits option.splits if_splits)
  from Some l p have "lv L = lv node" "lv pp = Suc (lv L)" by auto
  from Coalesce_levelled [OF c lev this] show ?thesis by (simp add: levelled_pages [OF p4])
next
  case None
  with m obtain R f st1 where R: "r = Some R" and c: "Coalesce R node pp 1 st = Inr (f, st1)"
    and p4: "pages st4 = pages st1"
    by (auto simp add: merge_siblings_def split: sum.splits option.splits if_splits)
  from R r p have "lv R = lv node" "lv pp = Suc (lv R)" by auto
  from Coalesce_levelled [OF c lev this] show ?thesis by (simp add: levelled_pages [OF p4])
qed

lemma finish_fuel:
  "r \<noteq> Inl OutOfFuel \<Longrightarrow>
   (case r of
      Inl e \<Rightarrow> Inl e
    | Inr (del, st5) \<Rightarrow>
        let st6 = UnpinPage pp True st5 in
        if del then
          (if tx then
             Inr (True, st6\<lparr>deleted_page_set := insert pp (deleted_page_set st6)\<rparr>)
           else
             (case DeletePage pp st6 of
                (False, st7) \<Rightarrow> Inl (AssertionFailed 353)
              | (True, st7) \<Rightarrow> Inr (True, st7)))
        else Inr (True, st6)) \<noteq> Inl OutOfFuel"
  by (auto simp add: Let_def split: sum.splits prod.splits bool.splits)

lemma CoalesceOrRedistribute_enough_fuel:
  "levelled lv h st \<Longrightarrow> h - lv node < n \<Longrightarrow>
   CoalesceOrRedistribute n node tx st \<noteq> Inl OutOfFuel"
proof (induction n arbitrary: node st)
  case 0
  then show ?case by simp
next
  case (Suc n)
  show ?case
  proof (cases "pages st node")
    case None
    then show ?thesis by simp
  next
    case (Some nd)
    note nd = this
    show ?thesis
    proof (cases "GetMinSize nd \<le> GetSize nd")
      case True
      with nd show ?thesis by simp
    next
      case small: False
      show ?thesis
      proof (cases "parent_page_id nd = INVALID_PAGE_ID")
        case True
        with nd small show ?thesis by (auto dest: AdjustRoot_fuel)
      next
        case False
        define pp where "pp = parent_page_id nd"
        have ppn: "parent_page_id nd = pp" "pp \<noteq> INVALID_PAGE_ID"
          using False by (simp_all add: pp_def)
        from Suc.prems(1) nd ppn have lvpp: "lv pp = Suc (lv node)"
          unfolding levelled_def by blast
        show ?thesis
        proof (cases "pages st pp")
          case None
          with nd small ppn show ?thesis
            by (simp add: GetInternalPage_def FetchPage_def)
        next
          case (Some parent)
          note parent = this
          from Suc.prems(1) parent have h: "lv pp \<le> h" unfolding levelled_def by blast
          show ?thesis
          proof (cases "ValueIndex parent node")
            case None
            with nd small ppn parent show ?thesis
              by (simp add: GetInternalPage_def FetchPage_def)
          next
            case (Some idx)
            from ValueIndex_internal [OF Some] have int: "\<not> IsLeafPage parent" .
            from Suc.prems(1) parent
            have ch: "\<forall>c \<in> children parent. lv c = lv node"
              using lvpp unfolding levelled_def by fastforce
            from small have sm: "GetSize nd < GetMinSize nd" by simp
            have pin: "pages (pin pp st) pp = Some parent" using parent by simp
            note eq = CoalesceOrRedistribute_parent [OF nd sm ppn parent Some]
            show ?thesis
            proof (cases "look_left node pp idx tx (pin pp st)")
              case (Inl e)
              with look_left_fuel [OF Inl] show ?thesis unfolding eq by simp
            next
              case (Inr a)
              note ll = this
              show ?thesis
              proof (cases a)
                case (Inl r)
                with ll show ?thesis unfolding eq by simp
              next
                case (Inr b)
                obtain l st2 where b: "b = (l, st2)" by (cases b)
                from ll Inr b have ll': "look_left node pp idx tx (pin pp st) = Inr (Inr (l, st2))"
                  by simp
                from look_left_sibling [OF ll' pin int]
                have p2: "pages st2 = pages st" and lc: "\<forall>L. l = Some L \<longrightarrow> L \<in> children parent"
                  by simp_all
                have par2: "pages st2 pp = Some parent" using p2 parent by simp
                show ?thesis
                proof (cases "look_right node pp idx l tx st2")
                  case (Inl e)
                  with look_right_fuel [OF Inl] ll' show ?thesis unfolding eq by simp
                next
                  case (Inr a')
                  note lr = this
                  show ?thesis
                  proof (cases a')
                    case (Inl r)
                    with ll' lr show ?thesis unfolding eq by simp
                  next
                    case (Inr b')
                    obtain r st3 where b': "b' = (r, st3)" by (cases b')
                    from lr Inr b'
                    have lr': "look_right node pp idx l tx st2 = Inr (Inr (r, st3))" by simp
                    from look_right_sibling [OF lr' par2 int]
                    have p3: "pages st3 = pages st"
                      and rc: "\<forall>R. r = Some R \<longrightarrow> R \<in> children parent"
                      using p2 by simp_all
                    have lev3: "levelled lv h st3"
                      using Suc.prems(1) by (simp add: levelled_pages [OF p3])
                    show ?thesis
                    proof (cases "merge_siblings node pp l r tx st3")
                      case (Inl e)
                      with merge_siblings_fuel [OF Inl] ll' lr' show ?thesis unfolding eq by simp
                    next
                      case (Inr st4)
                      from lc rc ch have "\<forall>L. l = Some L \<longrightarrow> lv L = lv node"
                        "\<forall>R. r = Some R \<longrightarrow> lv R = lv node" by auto
                      from merge_siblings_levelled [OF Inr lev3 this lvpp]
                      have lev4: "levelled lv h st4" .
                      from Suc.prems(2) h lvpp have "h - lv pp < n" by simp
                      from Suc.IH [OF lev4 this]
                      have "CoalesceOrRedistribute n pp tx st4 \<noteq> Inl OutOfFuel" .
                      from finish_fuel [OF this, of pp tx] show ?thesis
                        unfolding eq by (simp only: ll' lr' Inr sum.case prod.case) simp
                    qed
                  qed
                qed
              qed
            qed
          qed
        qed
      qed
    qed
  qed
qed

text \<open>
  What the call on the parent leaves alone: in a levelled store \<^verbatim>\<open>CoalesceOrRedistribute\<close>
  on a page changes the entries of no page of a lower level, so the entries a merge has
  moved are still in place when the method returns.
\<close>

lemma set_entries_frame:
  "x \<noteq> p \<Longrightarrow> pages (set_leaf_entries p es st) x = pages st x"
  "x \<noteq> p \<Longrightarrow> pages (set_internal_entries p es' st) x = pages st x"
  by (simp_all add: set_leaf_entries_def set_internal_entries_def split: option.splits payload.splits)

lemma set_parent_key_frame:
  "x \<noteq> parent \<or> pages st parent = None \<Longrightarrow> pages (set_parent_key parent child ko st) x = pages st x"
  by (auto simp add: set_parent_key_def set_entries_frame split: option.splits)

lemma set_entries_dom:
  "(pages (set_leaf_entries p es st) x = None) = (pages st x = None)"
  "(pages (set_internal_entries p es' st) x = None) = (pages st x = None)"
  "(pages (SetParentPageId c q st) x = None) = (pages st x = None)"
  by (auto simp add: set_leaf_entries_def set_internal_entries_def SetParentPageId_def
      split: option.splits payload.splits)

lemma MoveAllTo_frame:
  "MoveAllTo node sib i st = Inr st' \<Longrightarrow> x \<noteq> node \<Longrightarrow> x \<noteq> sib \<Longrightarrow>
   map_option body (pages st' x) = map_option body (pages st x)"
  by (auto simp add: MoveAllTo_def fold_SetParentPageId_body split: option.splits payload.splits)

lemma MoveLastToFrontOf_frame:
  "MoveLastToFrontOf nb node i st = Inr st' \<Longrightarrow> pages st node = Some n \<Longrightarrow>
   x \<noteq> nb \<Longrightarrow> x \<noteq> node \<Longrightarrow> x \<noteq> parent_page_id n \<Longrightarrow>
   map_option body (pages st' x) = map_option body (pages st x)"
  by (auto simp add: MoveLastToFrontOf_def set_parent_key_frame set_entries_frame SetParentPageId_body
      split: option.splits payload.splits if_splits)

lemma MoveFirstToEndOf_frame:
  "MoveFirstToEndOf nb node st = Inr st' \<Longrightarrow> pages st nb = Some b \<Longrightarrow>
   x \<noteq> nb \<Longrightarrow> x \<noteq> node \<Longrightarrow>
   x \<noteq> parent_page_id b \<or> pages st (parent_page_id b) = None \<Longrightarrow>
   map_option body (pages st' x) = map_option body (pages st x)"
  by (auto simp add: MoveFirstToEndOf_def set_parent_key_frame set_entries_frame SetParentPageId_body
        set_entries_dom
      split: option.splits payload.splits if_splits list.splits)

lemma parent_frame:
  "parent_Remove p c st = Inr st' \<Longrightarrow> x \<noteq> p \<Longrightarrow> pages st' x = pages st x"
  "parent_SetValueAt p c v st = Inr st' \<Longrightarrow> x \<noteq> p \<Longrightarrow> pages st' x = pages st x"
  by (auto simp add: parent_Remove_def parent_SetValueAt_def set_entries_frame split: option.splits)

lemma Coalesce_frame:
  assumes "Coalesce nb node pp i st = Inr (f, st')" and "x \<noteq> nb" and "x \<noteq> node" and "x \<noteq> pp"
  shows "map_option body (pages st' x) = map_option body (pages st x)"
proof (cases "i = 0")
  case True
  with assms(1) obtain j st1 where "MoveAllTo node nb j st = Inr st1" "parent_Remove pp node st1 = Inr st'"
    by (auto simp add: Coalesce_def split: option.splits sum.splits if_splits)
  then show ?thesis
    using MoveAllTo_frame [of node nb j st st1 x] parent_frame(1) [of pp node st1 st' x] assms(2-4)
    by simp
next
  case False
  with assms(1) obtain j st1 st2 where "MoveAllTo node nb j st = Inr st1"
    "parent_Remove pp nb st1 = Inr st2" "parent_SetValueAt pp node nb st2 = Inr st'"
    by (auto simp add: Coalesce_def split: option.splits sum.splits if_splits)
  then show ?thesis
    using MoveAllTo_frame [of node nb j st st1 x] parent_frame(1) [of pp nb st1 st2 x]
      parent_frame(2) [of pp node nb st2 st' x] assms(2-4)
    by simp
qed

lemma AdjustRoot_frame:
  "AdjustRoot r st = Inr (b, st') \<Longrightarrow> map_option body (pages st' x) = map_option body (pages st x)"
  by (auto simp add: AdjustRoot_def Let_def GetPage_def FetchPage_def UpdateRootPageId_fields
        SetParentPageId_body
      split: option.splits list.splits prod.splits if_splits)

lemma levelled_facts:
  assumes "levelled lv h st" and "pages st p = Some pg"
  shows "p \<noteq> INVALID_PAGE_ID" "lv p \<le> h"
    "parent_page_id pg \<noteq> INVALID_PAGE_ID \<Longrightarrow> lv (parent_page_id pg) = Suc (lv p)"
    "c \<in> children pg \<Longrightarrow> lv p = Suc (lv c)"
  using assms unfolding levelled_def by blast+

lemma levelled_no_invalid: "levelled lv h st \<Longrightarrow> pages st INVALID_PAGE_ID = None"
  unfolding levelled_def by (cases "pages st INVALID_PAGE_ID") auto

lemma look_left_below:
  assumes ll: "look_left node pp idx tx st = Inr (Inl (b, st'))"
    and lev: "levelled lv h st"
    and nd: "pages st node = Some nd" "parent_page_id nd = pp"
    and par: "pages st pp = Some parent" "\<not> IsLeafPage parent"
    and lvpp: "lv pp = Suc (lv node)" and q: "lv q < lv node"
  shows "map_option body (pages st' q) = map_option body (pages st q)"
proof -
  from ll par obtain L left st1 st2 where L: "ValueAt parent (idx - 1) = Some L"
    and g: "GetPage_txn L tx 2 st = (Some left, st1)"
    and r: "Redistribute L node 1 st1 = Inr st2"
    and st': "pages st' = pages st2"
    by (auto simp add: look_left_def split: if_splits option.splits prod.splits sum.splits)
  from g have p1: "pages st1 = pages st"
    using pages_GetPage_txn [of L tx 2 st] by simp
  from r have m: "MoveLastToFrontOf L node 1 st1 = Inr st2" by (simp add: Redistribute_def)
  from ValueAt_child [OF L par(2)] levelled_facts(4) [OF lev par(1)] lvpp
  have "lv L = lv node" by fastforce
  with q lvpp have n: "q \<noteq> L" "q \<noteq> node" "q \<noteq> parent_page_id nd" using nd(2) by auto
  have "pages st1 node = Some nd" using nd(1) p1 by simp
  from MoveLastToFrontOf_frame [OF m this n] p1 st' show ?thesis by simp
qed

lemma look_right_below:
  assumes lr: "look_right node pp idx l tx st = Inr (Inl (b, st'))"
    and lev: "levelled lv h st"
    and par: "pages st pp = Some parent" "\<not> IsLeafPage parent"
    and lvpp: "lv pp = Suc (lv node)" and q: "lv q < lv node"
  shows "map_option body (pages st' q) = map_option body (pages st q)"
proof -
  from lr par obtain R right st1 st2 where R: "ValueAt parent (idx + 1) = Some R"
    and g: "GetPage_txn R tx 2 st = (Some right, st1)"
    and r: "Redistribute R node 0 st1 = Inr st2"
    and st': "pages st' = pages st2"
    by (auto simp add: look_right_def split: if_splits option.splits prod.splits sum.splits)
  from g have p1: "pages st1 = pages st"
    using pages_GetPage_txn [of R tx 2 st] by simp
  from g have rp: "pages st R = Some right"
    by (auto simp add: GetPage_txn_def FetchPage_def split: option.splits)
  from r have m: "MoveFirstToEndOf R node st1 = Inr st2" by (simp add: Redistribute_def)
  from ValueAt_child [OF R par(2)] levelled_facts(4) [OF lev par(1)] lvpp
  have lR: "lv R = lv node" by fastforce
  with q have n: "q \<noteq> R" "q \<noteq> node" by auto
  have "q \<noteq> parent_page_id right \<or> pages st1 (parent_page_id right) = None"
  proof (cases "parent_page_id right = INVALID_PAGE_ID")
    case True
    then show ?thesis using levelled_no_invalid [OF lev] p1 by simp
  next
    case False
    from levelled_facts(3) [OF lev rp False] lR q show ?thesis by auto
  qed
  moreover have "pages st1 R = Some right" using rp p1 by simp
  ultimately show ?thesis
    using MoveFirstToEndOf_frame [OF m _ n, of right] p1 st' by simp
qed

lemma merge_siblings_below:
  assumes m: "merge_siblings node pp l r tx st = Inr st4"
    and l: "\<forall>L. l = Some L \<longrightarrow> q \<noteq> L" and r: "\<forall>R. r = Some R \<longrightarrow> q \<noteq> R"
    and q: "q \<noteq> node" "q \<noteq> pp"
  shows "map_option body (pages st4 q) = map_option body (pages st q)"
proof (cases l)
  case (Some L)
  with m obtain f st1 where c: "Coalesce L node pp 0 st = Inr (f, st1)"
    and p4: "pages st4 = pages st1"
    by (auto simp add: merge_siblings_def split: sum.splits option.splits if_splits)
  from Coalesce_frame [OF c _ q] l Some p4 show ?thesis by simp
next
  case None
  with m obtain R f st1 where R: "r = Some R" and c: "Coalesce R node pp 1 st = Inr (f, st1)"
    and p4: "pages st4 = pages st1"
    by (auto simp add: merge_siblings_def split: sum.splits option.splits if_splits)
  from Coalesce_frame [OF c _ q] r R p4 show ?thesis by simp
qed

lemma finish_below:
  assumes "(case r of
      Inl e \<Rightarrow> Inl e
    | Inr (del, st5) \<Rightarrow>
        let st6 = UnpinPage pp True st5 in
        if del then
          (if tx then
             Inr (True, st6\<lparr>deleted_page_set := insert pp (deleted_page_set st6)\<rparr>)
           else
             (case DeletePage pp st6 of
                (False, st7) \<Rightarrow> Inl (AssertionFailed 353)
              | (True, st7) \<Rightarrow> Inr (True, st7)))
        else Inr (True, st6)) = Inr (b, st')"
  shows "b \<and> (\<exists>del st5. r = Inr (del, st5) \<and> (\<forall>q. q \<noteq> pp \<longrightarrow> pages st' q = pages st5 q))"
  using assms
  by (auto simp add: Let_def DeletePage_def split: sum.splits prod.splits bool.splits if_splits)

lemma CoalesceOrRedistribute_Suc_cases:
  assumes "CoalesceOrRedistribute (Suc n) node tx st = Inr (b, st')"
  obtains
    (satisfied) nd where "pages st node = Some nd" "GetMinSize nd \<le> GetSize nd" "\<not> b" "st' = st"
  | (root) nd where "pages st node = Some nd" "GetSize nd < GetMinSize nd"
      "parent_page_id nd = INVALID_PAGE_ID" "AdjustRoot node st = Inr (b, st')"
  | (left) nd pp parent idx where "pages st node = Some nd" "GetSize nd < GetMinSize nd"
      "parent_page_id nd = pp" "pp \<noteq> INVALID_PAGE_ID" "pages st pp = Some parent"
      "ValueIndex parent node = Some idx"
      "look_left node pp idx tx (pin pp st) = Inr (Inl (b, st'))"
  | (right) nd pp parent idx l st2 where "pages st node = Some nd" "GetSize nd < GetMinSize nd"
      "parent_page_id nd = pp" "pp \<noteq> INVALID_PAGE_ID" "pages st pp = Some parent"
      "ValueIndex parent node = Some idx"
      "look_left node pp idx tx (pin pp st) = Inr (Inr (l, st2))"
      "look_right node pp idx l tx st2 = Inr (Inl (b, st'))"
  | (merged) nd pp parent idx l st2 r st3 st4 where "pages st node = Some nd"
      "GetSize nd < GetMinSize nd"
      "parent_page_id nd = pp" "pp \<noteq> INVALID_PAGE_ID" "pages st pp = Some parent"
      "ValueIndex parent node = Some idx"
      "look_left node pp idx tx (pin pp st) = Inr (Inr (l, st2))"
      "look_right node pp idx l tx st2 = Inr (Inr (r, st3))"
      "merge_siblings node pp l r tx st3 = Inr st4"
      "(case CoalesceOrRedistribute n pp tx st4 of
          Inl e \<Rightarrow> Inl e
        | Inr (del, st5) \<Rightarrow>
            let st6 = UnpinPage pp True st5 in
            if del then
              (if tx then
                 Inr (True, st6\<lparr>deleted_page_set := insert pp (deleted_page_set st6)\<rparr>)
               else
                 (case DeletePage pp st6 of
                    (False, st7) \<Rightarrow> Inl (AssertionFailed 353)
                  | (True, st7) \<Rightarrow> Inr (True, st7)))
            else Inr (True, st6)) = Inr (b, st')"
proof (cases "pages st node")
  case None
  with assms show ?thesis by simp
next
  case (Some nd)
  note nd = this
  show ?thesis
  proof (cases "GetMinSize nd \<le> GetSize nd")
    case True
    with nd assms show ?thesis by (intro satisfied [of nd]) auto
  next
    case False
    then have sm: "GetSize nd < GetMinSize nd" by simp
    show ?thesis
    proof (cases "parent_page_id nd = INVALID_PAGE_ID")
      case True
      with nd sm assms show ?thesis by (intro root [of nd]) auto
    next
      case inv: False
      show ?thesis
      proof (cases "pages st (parent_page_id nd)")
        case None
        with nd sm inv assms show ?thesis by (simp add: GetInternalPage_def FetchPage_def)
      next
        case (Some parent)
        note parent = this
        show ?thesis
        proof (cases "ValueIndex parent node")
          case None
          with nd sm inv parent assms show ?thesis by (simp add: GetInternalPage_def FetchPage_def)
        next
          case (Some idx)
          note eq = CoalesceOrRedistribute_parent [OF nd sm refl inv parent Some, of n tx]
          show ?thesis
          proof (cases "look_left node (parent_page_id nd) idx tx (pin (parent_page_id nd) st)")
            case (Inl e)
            with assms eq show ?thesis by simp
          next
            case (Inr a)
            show ?thesis
            proof (cases a)
              case (Inl r)
              with Inr assms eq have "look_left node (parent_page_id nd) idx tx
                  (pin (parent_page_id nd) st) = Inr (Inl (b, st'))" by simp
              from left [OF nd sm refl inv parent Some this] show ?thesis .
            next
              case ir: (Inr c)
              obtain l st2 where c: "c = (l, st2)" by (cases c)
              from Inr ir c have ll: "look_left node (parent_page_id nd) idx tx
                  (pin (parent_page_id nd) st) = Inr (Inr (l, st2))" by simp
              show ?thesis
              proof (cases "look_right node (parent_page_id nd) idx l tx st2")
                case (Inl e)
                with assms eq ll show ?thesis by simp
              next
                case (Inr a')
                note lr0 = this
                show ?thesis
                proof (cases a')
                  case (Inl r)
                  with lr0 ll assms eq
                  have "look_right node (parent_page_id nd) idx l tx st2 = Inr (Inl (b, st'))"
                    by simp
                  from right [OF nd sm refl inv parent Some ll this] show ?thesis .
                next
                  case (Inr c')
                  obtain r st3 where c': "c' = (r, st3)" by (cases c')
                  from lr0 Inr c'
                  have lr: "look_right node (parent_page_id nd) idx l tx st2 = Inr (Inr (r, st3))"
                    by simp
                  show ?thesis
                  proof (cases "merge_siblings node (parent_page_id nd) l r tx st3")
                    case (Inl e)
                    with assms eq ll lr show ?thesis by simp
                  next
                    case (Inr st4)
                    from assms [unfolded eq] ll lr Inr
                    have "(case CoalesceOrRedistribute n (parent_page_id nd) tx st4 of
                        Inl e \<Rightarrow> Inl e
                      | Inr (del, st5) \<Rightarrow>
                          let st6 = UnpinPage (parent_page_id nd) True st5 in
                          if del then
                            (if tx then
                               Inr (True, st6\<lparr>deleted_page_set :=
                                      insert (parent_page_id nd) (deleted_page_set st6)\<rparr>)
                             else
                               (case DeletePage (parent_page_id nd) st6 of
                                  (False, st7) \<Rightarrow> Inl (AssertionFailed 353)
                                | (True, st7) \<Rightarrow> Inr (True, st7)))
                          else Inr (True, st6)) = Inr (b, st')"
                      by (simp only: sum.case prod.case)
                    from merged [OF nd sm refl inv parent Some ll lr Inr this] show ?thesis .
                  qed
                qed
              qed
            qed
          qed
        qed
      qed
    qed
  qed
qed


lemma CoalesceOrRedistribute_below:
  "levelled lv h st \<Longrightarrow> CoalesceOrRedistribute n p tx st = Inr (b, st') \<Longrightarrow> lv q < lv p \<Longrightarrow>
   map_option body (pages st' q) = map_option body (pages st q)"
proof (induction n arbitrary: p st b st')
  case 0
  then show ?case by simp
next
  case (Suc n)
  from Suc.prems(2) show ?case
  proof (cases rule: CoalesceOrRedistribute_Suc_cases)
    case (satisfied nd)
    then show ?thesis by simp
  next
    case (root nd)
    then show ?thesis by (intro AdjustRoot_frame)
  next
    case (left nd pp parent idx)
    have lev: "levelled lv h (pin pp st)"
      using Suc.prems(1) by (simp add: levelled_pages [of "pin pp st" st])
    from levelled_facts(3) [OF Suc.prems(1) left(1)] left(3,4) have lvpp: "lv pp = Suc (lv p)" by simp
    have a: "pages (pin pp st) p = Some nd" "pages (pin pp st) pp = Some parent"
      using left(1,5) by simp_all
    from look_left_below [OF left(7) lev a(1) left(3) a(2) ValueIndex_internal [OF left(6)] lvpp
        Suc.prems(3)]
    show ?thesis by simp
  next
    case (right nd pp parent idx l st2)
    from levelled_facts(3) [OF Suc.prems(1) right(1)] right(3,4) have lvpp: "lv pp = Suc (lv p)" by simp
    have int: "\<not> IsLeafPage parent" by (rule ValueIndex_internal [OF right(6)])
    have pin: "pages (pin pp st) pp = Some parent" using right(5) by simp
    from look_left_sibling [OF right(7) pin int] have p2: "pages st2 = pages st" by simp
    have lev: "levelled lv h st2" using Suc.prems(1) by (simp add: levelled_pages [OF p2])
    have a: "pages st2 pp = Some parent" using right(5) p2 by simp
    from look_right_below [OF right(8) lev a int lvpp Suc.prems(3)] p2
    show ?thesis by simp
  next
    case (merged nd pp parent idx l st2 r st3 st4)
    from levelled_facts(3) [OF Suc.prems(1) merged(1)] merged(3,4) have lvpp: "lv pp = Suc (lv p)" by simp
    have int: "\<not> IsLeafPage parent" by (rule ValueIndex_internal [OF merged(6)])
    have pin: "pages (pin pp st) pp = Some parent" using merged(5) by simp
    from look_left_sibling [OF merged(7) pin int]
    have p2: "pages st2 = pages st" and lc: "\<forall>L. l = Some L \<longrightarrow> L \<in> children parent" by simp_all
    have par2: "pages st2 pp = Some parent" using p2 merged(5) by simp
    from look_right_sibling [OF merged(8) par2 int]
    have p3: "pages st3 = pages st" and rc: "\<forall>R. r = Some R \<longrightarrow> R \<in> children parent"
      using p2 by simp_all
    have lev3: "levelled lv h st3" using Suc.prems(1) by (simp add: levelled_pages [OF p3])
    have ch: "\<And>c. c \<in> children parent \<Longrightarrow> lv c = lv p"
      using levelled_facts(4) [OF Suc.prems(1) merged(5)] lvpp by simp
    have lr: "\<forall>L. l = Some L \<longrightarrow> lv L = lv p" "\<forall>R. r = Some R \<longrightarrow> lv R = lv p"
      using lc rc ch by blast+
    from merge_siblings_levelled [OF merged(9) lev3 lr lvpp] have lev4: "levelled lv h st4" .
    have ne1: "\<forall>L. l = Some L \<longrightarrow> q \<noteq> L" "\<forall>R. r = Some R \<longrightarrow> q \<noteq> R"
      using lr Suc.prems(3) by (metis less_irrefl)+
    have ne2: "q \<noteq> p" "q \<noteq> pp" using Suc.prems(3) lvpp by auto
    note ne = ne1 ne2
    from merge_siblings_below [OF merged(9) ne]
    have b4: "map_option body (pages st4 q) = map_option body (pages st q)" using p3 by simp
    from finish_below [where r = "CoalesceOrRedistribute n pp tx st4" and pp = pp and tx = tx,
        OF merged(10)] obtain del st5
      where r5: "CoalesceOrRedistribute n pp tx st4 = Inr (del, st5)"
        and f: "\<forall>q. q \<noteq> pp \<longrightarrow> pages st' q = pages st5 q"
      by blast
    from Suc.prems(3) lvpp have "lv q < lv pp" by simp
    from Suc.IH [OF lev4 r5 this] b4 f ne(4) show ?thesis by simp
  qed
qed

lemma MoveAllTo_pages_frame:
  assumes "MoveAllTo node sib i st = Inr st'" and "pages st node = Some nd"
    and "x \<noteq> node" and "x \<noteq> sib" and "x \<notin> children nd"
  shows "pages st' x = pages st x"
  using assms
  by (auto simp add: MoveAllTo_def pages_fold_SetParentPageId children_def internal_entries_def
      split: option.splits payload.splits)

lemma parent_Remove_shape:
  assumes "parent_Remove pp c st = Inr st'" and "pages st pp = Some parent"
  shows "\<exists>es. pages st' pp = Some (parent\<lparr>body := Internal es\<rparr>) \<and>
              int (length es) = GetSize parent - 1"
proof -
  from assms obtain i where i: "ValueIndex parent c = Some i"
    and st': "st' = set_internal_entries pp (remove_at i (internal_entries parent)) st"
    by (auto simp add: parent_Remove_def split: option.splits)
  from ValueIndex_internal [OF i] have nl: "\<not> IsLeafPage parent" .
  from value_index_Some [of c "internal_entries parent" i] i
  have "nat i < length (internal_entries parent)" by (simp add: ValueIndex_def)
  then have "int (length (remove_at i (internal_entries parent))) = GetSize parent - 1"
    using nl by (cases "body parent")
      (auto simp add: remove_at_def GetSize_def internal_entries_def IsLeafPage_def)
  then show ?thesis
    unfolding st' by (auto simp add: set_internal_entries_pages [OF assms(2) nl])
qed

lemma parent_SetValueAt_shape:
  assumes "parent_SetValueAt pp c v st = Inr st'" and "pages st pp = Some parent"
  shows "\<exists>es. pages st' pp = Some (parent\<lparr>body := Internal es\<rparr>) \<and>
              int (length es) = GetSize parent"
proof -
  from assms obtain i where i: "ValueIndex parent c = Some i"
    and st': "st' = set_internal_entries pp
                ((internal_entries parent)[nat i := (fst (internal_entries parent ! nat i), v)]) st"
    by (auto simp add: parent_SetValueAt_def split: option.splits)
  from ValueIndex_internal [OF i] have nl: "\<not> IsLeafPage parent" .
  have "int (length ((internal_entries parent)[nat i := (fst (internal_entries parent ! nat i), v)]))
          = GetSize parent"
    using nl by (cases "body parent") (auto simp add: GetSize_def internal_entries_def IsLeafPage_def)
  then show ?thesis
    unfolding st' by (auto simp add: set_internal_entries_pages [OF assms(2) nl])
qed

lemma Coalesce_parent_page:
  assumes c: "Coalesce nb node pp i st = Inr (f, st')"
    and par: "pages st pp = Some parent" and nd: "pages st node = Some nd"
    and ne: "pp \<noteq> node" "pp \<noteq> nb" "pp \<notin> children nd"
  shows "\<exists>es. pages st' pp = Some (parent\<lparr>body := Internal es\<rparr>) \<and>
              int (length es) = GetSize parent - 1"
proof (cases "i = 0")
  case True
  with c obtain j st1 where m: "MoveAllTo node nb j st = Inr st1"
    and r: "parent_Remove pp node st1 = Inr st'"
    by (auto simp add: Coalesce_def split: option.splits sum.splits if_splits)
  from MoveAllTo_pages_frame [OF m nd ne] par have "pages st1 pp = Some parent" by simp
  from parent_Remove_shape [OF r this] show ?thesis .
next
  case False
  with c obtain j st1 st2 where m: "MoveAllTo node nb j st = Inr st1"
    and r: "parent_Remove pp nb st1 = Inr st2"
    and v: "parent_SetValueAt pp node nb st2 = Inr st'"
    by (auto simp add: Coalesce_def split: option.splits sum.splits if_splits)
  from MoveAllTo_pages_frame [OF m nd ne] par have "pages st1 pp = Some parent" by simp
  from parent_Remove_shape [OF r this] obtain es
    where p2: "pages st2 pp = Some (parent\<lparr>body := Internal es\<rparr>)"
      and l2: "int (length es) = GetSize parent - 1"
    by blast
  from parent_SetValueAt_shape [OF v p2] l2 show ?thesis by (simp add: GetSize_def)
qed

lemma satisfied_after_merge:
  assumes "pages st4 pp = Some (parent\<lparr>body := Internal es\<rparr>)"
    and "int (length es) = GetSize parent - 1" and "\<not> IsLeafPage parent"
    and "GetMinSize parent < GetSize parent"
  shows "CoalesceOrRedistribute (Suc m) pp tx st4 = Inr (False, st4)"
proof -
  have "GetMinSize (parent\<lparr>body := Internal es\<rparr>) = GetMinSize parent"
    using assms(3) by (simp add: GetMinSize_def IsRootPage_def IsLeafPage_def)
  moreover have "GetSize (parent\<lparr>body := Internal es\<rparr>) = GetSize parent - 1"
    using assms(2) by (simp add: GetSize_def)
  ultimately show ?thesis using assms(1,4) by simp
qed

lemma entries_at_body:
  "map_option body (pages a q) = map_option body (pages b q) \<Longrightarrow> entries_at a q = entries_at b q"
  by (cases "pages a q"; cases "pages b q") (auto simp add: entries_at_def page_entries_def)

lemma merge_outcome:
  assumes nd: "pages st node = Some nd" "GetSize nd < GetMinSize nd" "parent_page_id nd = pp"
      "pp \<noteq> INVALID_PAGE_ID"
    and par: "pages st pp = Some parent" "ValueIndex parent node = Some idx"
    and ne: "pp \<noteq> node" "N \<noteq> pp"
    and ll: "look_left node pp idx tx (pin pp st) = Inr (Inr (l, s2))"
    and lr: "look_right node pp idx l tx s2 = Inr (Inr (r, s3))"
    and ms: "merge_siblings node pp l r tx s3 = Inr st4"
    and nb: "l = Some N \<or> (l = None \<and> r = Some N)"
  shows "CoalesceOrRedistribute (Suc n) node tx st =
           (case CoalesceOrRedistribute n pp tx st4 of
              Inl e \<Rightarrow> Inl e
            | Inr (del, st5) \<Rightarrow>
                let st6 = UnpinPage pp True st5 in
                if del then
                  (if tx then
                     Inr (True, st6\<lparr>deleted_page_set := insert pp (deleted_page_set st6)\<rparr>)
                   else
                     (case DeletePage pp st6 of
                        (False, st7) \<Rightarrow> Inl (AssertionFailed 353)
                      | (True, st7) \<Rightarrow> Inr (True, st7)))
                else Inr (True, st6))" (is "?lhs = ?rhs")
    and "\<forall>b st'. CoalesceOrRedistribute (Suc n) node tx st = Inr (b, st') \<longrightarrow>
           b \<and> (levelled lv h st \<longrightarrow>
                  entries_at st' node = entries_at st4 node \<and> entries_at st' N = entries_at st4 N)"
    and "levelled lv h st \<and> 0 < n \<and> GetMinSize parent < GetSize parent \<longrightarrow>
           CoalesceOrRedistribute (Suc n) node tx st = Inr (True, UnpinPage pp True st4)"
proof -
  show eq: "?lhs = ?rhs"
    by (simp only: CoalesceOrRedistribute_parent [OF nd par] ll lr ms sum.case prod.case)
  have int: "\<not> IsLeafPage parent" by (rule ValueIndex_internal [OF par(2)])
  have pin: "pages (pin pp st) pp = Some parent" using par(1) by simp
  from look_left_sibling [OF ll pin int]
  have p2: "pages s2 = pages st" and lc: "\<forall>L. l = Some L \<longrightarrow> L \<in> children parent" by simp_all
  have par2: "pages s2 pp = Some parent" using p2 par(1) by simp
  from look_right_sibling [OF lr par2 int]
  have p3: "pages s3 = pages st" and rc: "\<forall>R. r = Some R \<longrightarrow> R \<in> children parent"
    using p2 by simp_all
  from nb lc rc have Nc: "N \<in> children parent" by auto
  from ms nb obtain i f sc where c: "Coalesce N node pp i s3 = Inr (f, sc)"
    and p4: "pages st4 = pages sc"
    by (auto simp add: merge_siblings_def split: sum.splits option.splits if_splits)
  have facts: "levelled lv h st4 \<and> lv pp = Suc (lv node) \<and> lv N = lv node \<and> pp \<notin> children nd"
    if lev: "levelled lv h st"
  proof -
    from levelled_facts(3) [OF lev nd(1)] nd(3,4) have lvpp: "lv pp = Suc (lv node)" by simp
    have ch: "\<And>c. c \<in> children parent \<Longrightarrow> lv c = lv node"
      using levelled_facts(4) [OF lev par(1)] lvpp by simp
    have lrl: "\<forall>L. l = Some L \<longrightarrow> lv L = lv node" "\<forall>R. r = Some R \<longrightarrow> lv R = lv node"
      using lc rc ch by blast+
    have lev3: "levelled lv h s3" using lev by (simp add: levelled_pages [OF p3])
    from merge_siblings_levelled [OF ms lev3 lrl lvpp] have "levelled lv h st4" .
    moreover have "pp \<notin> children nd"
    proof
      assume "pp \<in> children nd"
      from levelled_facts(4) [OF lev nd(1) this] lvpp show False by arith
    qed
    ultimately show ?thesis using lvpp ch [OF Nc] by simp
  qed
  show "\<forall>b st'. CoalesceOrRedistribute (Suc n) node tx st = Inr (b, st') \<longrightarrow>
           b \<and> (levelled lv h st \<longrightarrow>
                  entries_at st' node = entries_at st4 node \<and> entries_at st' N = entries_at st4 N)"
  proof (intro allI impI)
    fix b st'
    assume "CoalesceOrRedistribute (Suc n) node tx st = Inr (b, st')"
    then have "?rhs = Inr (b, st')" by (simp only: eq)
    from finish_below [where r = "CoalesceOrRedistribute n pp tx st4" and pp = pp and tx = tx,
        OF this]
    obtain del st5 where b: b and r5: "CoalesceOrRedistribute n pp tx st4 = Inr (del, st5)"
      and f: "\<forall>q. q \<noteq> pp \<longrightarrow> pages st' q = pages st5 q"
      by blast
    have "entries_at st' node = entries_at st4 node \<and> entries_at st' N = entries_at st4 N"
      if lev: "levelled lv h st"
    proof -
      from facts [OF lev] have lev4: "levelled lv h st4" and lv: "lv node < lv pp" "lv N < lv pp"
        by simp_all
      from CoalesceOrRedistribute_below [OF lev4 r5 lv(1)] f ne(1)
      have "map_option body (pages st' node) = map_option body (pages st4 node)" by simp
      moreover from CoalesceOrRedistribute_below [OF lev4 r5 lv(2)] f ne(2)
      have "map_option body (pages st' N) = map_option body (pages st4 N)" by simp
      ultimately show ?thesis by (blast intro: entries_at_body)
    qed
    with b show "b \<and> (levelled lv h st \<longrightarrow>
                  entries_at st' node = entries_at st4 node \<and> entries_at st' N = entries_at st4 N)"
      by simp
  qed
  show "levelled lv h st \<and> 0 < n \<and> GetMinSize parent < GetSize parent \<longrightarrow>
           CoalesceOrRedistribute (Suc n) node tx st = Inr (True, UnpinPage pp True st4)"
  proof
    assume a: "levelled lv h st \<and> 0 < n \<and> GetMinSize parent < GetSize parent"
    then obtain m where n: "n = Suc m" by (cases n) auto
    from facts a have ppc: "pp \<notin> children nd" by simp
    have "pages s3 pp = Some parent" "pages s3 node = Some nd" using p3 par(1) nd(1) by simp_all
    from Coalesce_parent_page [OF c this ne(1) ne(2) [symmetric] ppc] p4
    obtain es where es: "pages st4 pp = Some (parent\<lparr>body := Internal es\<rparr>)"
      "int (length es) = GetSize parent - 1"
      by auto
    from a have "GetMinSize parent < GetSize parent" by simp
    from satisfied_after_merge [OF es int this]
    have r: "CoalesceOrRedistribute n pp tx st4 = Inr (False, st4)" unfolding n .
    show "CoalesceOrRedistribute (Suc n) node tx st = Inr (True, UnpinPage pp True st4)"
      by (simp only: eq r sum.case prod.case Let_def if_False)
  qed
qed

lemma merge_left_case:
  assumes "pages st node = Some nd" and "GetSize nd < GetMinSize nd"
    and "parent_page_id nd = pp" and "pp \<noteq> INVALID_PAGE_ID"
    and "pages st pp = Some parent" and "ValueIndex parent node = Some idx" and "pp \<noteq> node"
    and "1 \<le> idx" and "ValueAt parent (idx - 1) = Some L" and "pages st L = Some left"
    and "L \<noteq> node" and "L \<noteq> pp" and "IsLeafPage left = IsLeafPage nd"
    and "\<not> GetMinSize left < GetSize left"
    and "\<not> idx + 1 < GetSize parent \<or>
         (ValueAt parent (idx + 1) = Some R \<and> pages st R = Some right \<and>
          \<not> GetMinSize right < GetSize right)"
  shows "\<exists>st4 moved.
           entries_at st4 node = [] \<and> entries_at st4 L = page_entries left @ moved \<and>
           map snd moved = map snd (page_entries nd) \<and>
           (IsLeafPage nd \<longrightarrow> moved = page_entries nd) \<and>
           CoalesceOrRedistribute (Suc n) node tx st =
             (case CoalesceOrRedistribute n pp tx st4 of
                Inl e \<Rightarrow> Inl e
              | Inr (del, st5) \<Rightarrow>
                  let st6 = UnpinPage pp True st5 in
                  if del then
                    (if tx then
                       Inr (True, st6\<lparr>deleted_page_set := insert pp (deleted_page_set st6)\<rparr>)
                     else
                       (case DeletePage pp st6 of
                          (False, st7) \<Rightarrow> Inl (AssertionFailed 353)
                        | (True, st7) \<Rightarrow> Inr (True, st7)))
                  else Inr (True, st6)) \<and>
           (\<forall>b st'. CoalesceOrRedistribute (Suc n) node tx st = Inr (b, st') \<longrightarrow>
              b \<and> (levelled lv h st \<longrightarrow>
                     entries_at st' node = [] \<and> entries_at st' L = page_entries left @ moved)) \<and>
           (levelled lv h st \<and> 0 < n \<and> GetMinSize parent < GetSize parent \<longrightarrow>
              CoalesceOrRedistribute (Suc n) node tx st = Inr (True, UnpinPage pp True st4))"
proof -
  have "idx \<noteq> 0" using assms(8) by simp
  with look_left_poor_or_none [of st pp parent idx L left node tx] assms(5,8,9,10,14)
  obtain s2 where ll: "look_left node pp idx tx (pin pp st) = Inr (Inr (Some L, s2))"
    and p2: "pages s2 = pages st"
    by auto
  from look_right_poor_or_none [of s2 pp parent idx R right node "Some L" tx] assms(5,15) p2
  obtain r s3 where lr: "look_right node pp idx (Some L) tx s2 = Inr (Inr (r, s3))"
    and p3: "pages s3 = pages st"
    by auto
  from Coalesce_left [of s3 pp parent node idx nd L left] assms(1,3,5,6,7,10,11,12,13) p3
  obtain flag sc moved where c: "Coalesce L node pp 0 s3 = Inr (flag, sc)"
    and e: "entries_at sc node = []" "entries_at sc L = page_entries left @ moved"
      "map snd moved = map snd (page_entries nd)" "IsLeafPage nd \<longrightarrow> moved = page_entries nd"
    by auto
  let ?st4 = "if \<not> tx then
                (case r of
                   None \<Rightarrow> UnpinPage L True sc
                 | Some rightSiblingPageId \<Rightarrow>
                     UnpinPage rightSiblingPageId False (UnpinPage L True sc))
              else sc"
  have ms: "merge_siblings node pp (Some L) r tx s3 = Inr ?st4"
    by (simp add: merge_siblings_def c)
  have e4: "entries_at ?st4 = entries_at sc" by (cases r; cases tx) simp_all
  have nb: "Some L = Some L \<or> (Some L = None \<and> r = Some L)" by simp
  note mo = merge_outcome [OF assms(1-4) assms(5,6) assms(7,12) ll lr ms nb]
  show ?thesis
  proof (intro exI [where x = ?st4] exI [where x = moved] conjI)
    show "entries_at ?st4 node = []" "entries_at ?st4 L = page_entries left @ moved"
      using e(1,2) by (simp_all only: e4)
    show "map snd moved = map snd (page_entries nd)" "IsLeafPage nd \<longrightarrow> moved = page_entries nd"
      by (rule e(3), rule e(4))
    show "\<forall>b st'. CoalesceOrRedistribute (Suc n) node tx st = Inr (b, st') \<longrightarrow>
              b \<and> (levelled lv h st \<longrightarrow>
                     entries_at st' node = [] \<and> entries_at st' L = page_entries left @ moved)"
      using mo(2) [of n lv h] e(1,2) by (simp only: e4)
    show "levelled lv h st \<and> 0 < n \<and> GetMinSize parent < GetSize parent \<longrightarrow>
              CoalesceOrRedistribute (Suc n) node tx st = Inr (True, UnpinPage pp True ?st4)"
      by (rule mo(3))
  qed (rule mo(1))
qed

lemma merge_right_case:
  assumes "pages st node = Some nd" and "GetSize nd < GetMinSize nd"
    and "parent_page_id nd = pp" and "pp \<noteq> INVALID_PAGE_ID"
    and "pages st pp = Some parent" and "ValueIndex parent node = Some idx" and "pp \<noteq> node"
    and "idx = 0"
    and "idx + 1 < GetSize parent" and "ValueAt parent (idx + 1) = Some R"
    and "pages st R = Some right" and "R \<noteq> node" and "R \<noteq> pp"
    and "IsLeafPage right = IsLeafPage nd"
    and "\<not> GetMinSize right < GetSize right"
  shows "\<exists>st4 moved.
           entries_at st4 node = [] \<and> entries_at st4 R = page_entries right @ moved \<and>
           map snd moved = map snd (page_entries nd) \<and>
           (IsLeafPage nd \<longrightarrow> moved = page_entries nd) \<and>
           CoalesceOrRedistribute (Suc n) node tx st =
             (case CoalesceOrRedistribute n pp tx st4 of
                Inl e \<Rightarrow> Inl e
              | Inr (del, st5) \<Rightarrow>
                  let st6 = UnpinPage pp True st5 in
                  if del then
                    (if tx then
                       Inr (True, st6\<lparr>deleted_page_set := insert pp (deleted_page_set st6)\<rparr>)
                     else
                       (case DeletePage pp st6 of
                          (False, st7) \<Rightarrow> Inl (AssertionFailed 353)
                        | (True, st7) \<Rightarrow> Inr (True, st7)))
                  else Inr (True, st6)) \<and>
           (\<forall>b st'. CoalesceOrRedistribute (Suc n) node tx st = Inr (b, st') \<longrightarrow>
              b \<and> (levelled lv h st \<longrightarrow>
                     entries_at st' node = [] \<and> entries_at st' R = page_entries right @ moved)) \<and>
           (levelled lv h st \<and> 0 < n \<and> GetMinSize parent < GetSize parent \<longrightarrow>
              CoalesceOrRedistribute (Suc n) node tx st = Inr (True, UnpinPage pp True st4))"
proof -
  have ll: "look_left node pp idx tx (pin pp st) = Inr (Inr (None, pin pp st))"
    using assms(8) by (simp add: look_left_none)
  have pin: "pages (pin pp st) = pages st" by simp
  from look_right_poor_or_none [of "pin pp st" pp parent idx R right node None tx]
    assms(5,9,10,11,15)
  obtain s3 where lr: "look_right node pp idx None tx (pin pp st) = Inr (Inr (Some R, s3))"
    and p3: "pages s3 = pages st"
    by auto
  from ValueAt_ValueIndex [OF assms(10) ValueIndex_internal [OF assms(6)]]
  obtain j where j: "ValueIndex parent R = Some j" by blast
  from Coalesce_right [of s3 pp parent node idx R j nd right] assms(1,3,5,6,7,11,12,13,14) p3 j
  obtain flag sc moved where c: "Coalesce R node pp 1 s3 = Inr (flag, sc)"
    and e: "entries_at sc node = []" "entries_at sc R = page_entries right @ moved"
      "map snd moved = map snd (page_entries nd)" "IsLeafPage nd \<longrightarrow> moved = page_entries nd"
    by auto
  let ?st4 = "if \<not> tx then UnpinPage R True sc else sc"
  have ms: "merge_siblings node pp None (Some R) tx s3 = Inr ?st4"
    by (simp add: merge_siblings_def c)
  have e4: "entries_at ?st4 = entries_at sc" by (cases tx) simp_all
  have nb: "None = Some R \<or> (None = None \<and> Some R = Some R)" by simp
  note mo = merge_outcome [OF assms(1-4) assms(5,6) assms(7,13) ll lr ms nb]
  show ?thesis
  proof (intro exI [where x = ?st4] exI [where x = moved] conjI)
    show "entries_at ?st4 node = []" "entries_at ?st4 R = page_entries right @ moved"
      using e(1,2) by (simp_all only: e4)
    show "map snd moved = map snd (page_entries nd)" "IsLeafPage nd \<longrightarrow> moved = page_entries nd"
      by (rule e(3), rule e(4))
    show "\<forall>b st'. CoalesceOrRedistribute (Suc n) node tx st = Inr (b, st') \<longrightarrow>
              b \<and> (levelled lv h st \<longrightarrow>
                     entries_at st' node = [] \<and> entries_at st' R = page_entries right @ moved)"
      using mo(2) [of n lv h] e(1,2) by (simp only: e4)
    show "levelled lv h st \<and> 0 < n \<and> GetMinSize parent < GetSize parent \<longrightarrow>
              CoalesceOrRedistribute (Suc n) node tx st = Inr (True, UnpinPage pp True ?st4)"
      by (rule mo(3))
  qed (rule mo(1))
qed

text \<open>
  Claim C9: \<open>node\<close> is a page below its minimum size whose parent \<open>pp\<close> holds it at index
  \<open>idx\<close>; its left sibling \<open>L\<close> (if \<open>idx\<close> is not 0) and its right sibling \<open>R\<close> (if the
  parent has an entry at \<open>idx + 1\<close>) are pages of the same kind, different from the node
  and from the parent. Then \<^verbatim>\<open>CoalesceOrRedistribute\<close>
  \<^item> moves the last entry of the left sibling to the front of the node and returns false,
    if there is a left sibling and its size exceeds its minimum size;
  \<^item> otherwise moves the first entry of the right sibling to the end of the node and
    returns false, if there is a right sibling and its size exceeds its minimum size;
  \<^item> otherwise moves all entries of the node into the left sibling, if there is one, and
    goes on with the parent;
  \<^item> and moves them into the right sibling only when the node has no left sibling.
  After a merge the state is \<open>st4\<close>, with the node empty and its entries behind those of the
  sibling, and the method ends as lines 346 to 356 say: with the error of the call on the
  parent when that fails, with the assertion of line 353 when the deletion of the parent is
  refused, and with true otherwise. It never returns false, and in a store levelled by
  \<open>lv\<close> up to \<open>h\<close> the node is still empty and the sibling still holds the entries when it
  returns. It does return true, without a further call, when the parent keeps its minimum
  size without the node; and the bound on the recursion is not what stops it when it
  exceeds \<open>h - lv node\<close>.
\<close>

theorem sibling_strategy:
  assumes "pages st node = Some nd" and "GetSize nd < GetMinSize nd"
    and "parent_page_id nd = pp" and "pp \<noteq> INVALID_PAGE_ID"
    and "pages st pp = Some parent" and "ValueIndex parent node = Some idx" and "pp \<noteq> node"
    and "idx = 0 \<or>
         (1 \<le> idx \<and> ValueAt parent (idx - 1) = Some L \<and> pages st L = Some left \<and>
          L \<noteq> node \<and> L \<noteq> pp \<and> IsLeafPage left = IsLeafPage nd \<and> 0 \<le> max_size left)"
    and "\<not> idx + 1 < GetSize parent \<or>
         (ValueAt parent (idx + 1) = Some R \<and> pages st R = Some right \<and>
          R \<noteq> node \<and> R \<noteq> pp \<and> IsLeafPage right = IsLeafPage nd \<and> 0 \<le> max_size right \<and>
          parent_page_id right = pp)"
  shows
    "(idx \<noteq> 0 \<and> GetMinSize left < GetSize left \<longrightarrow>
        (\<exists>st'. CoalesceOrRedistribute (Suc n) node tx st = Inr (False, st') \<and>
           entries_at st' node = last (page_entries left) # page_entries nd \<and>
           entries_at st' L = butlast (page_entries left))) \<and>
     ((idx = 0 \<or> \<not> GetMinSize left < GetSize left) \<and>
      idx + 1 < GetSize parent \<and> GetMinSize right < GetSize right \<longrightarrow>
        (\<exists>st'. CoalesceOrRedistribute (Suc n) node tx st = Inr (False, st') \<and>
           entries_at st' node = page_entries nd @ [hd (page_entries right)] \<and>
           entries_at st' R = tl (page_entries right))) \<and>
     (idx \<noteq> 0 \<and> \<not> GetMinSize left < GetSize left \<and>
      (idx + 1 < GetSize parent \<longrightarrow> \<not> GetMinSize right < GetSize right) \<longrightarrow>
        (\<exists>st4 moved.
           entries_at st4 node = [] \<and> entries_at st4 L = page_entries left @ moved \<and>
           map snd moved = map snd (page_entries nd) \<and>
           (IsLeafPage nd \<longrightarrow> moved = page_entries nd) \<and>
           CoalesceOrRedistribute (Suc n) node tx st =
             (case CoalesceOrRedistribute n pp tx st4 of
                Inl e \<Rightarrow> Inl e
              | Inr (del, st5) \<Rightarrow>
                  let st6 = UnpinPage pp True st5 in
                  if del then
                    (if tx then
                       Inr (True, st6\<lparr>deleted_page_set := insert pp (deleted_page_set st6)\<rparr>)
                     else
                       (case DeletePage pp st6 of
                          (False, st7) \<Rightarrow> Inl (AssertionFailed 353)
                        | (True, st7) \<Rightarrow> Inr (True, st7)))
                  else Inr (True, st6)) \<and>
           (\<forall>b st'. CoalesceOrRedistribute (Suc n) node tx st = Inr (b, st') \<longrightarrow>
              b \<and> (levelled lv h st \<longrightarrow>
                     entries_at st' node = [] \<and> entries_at st' L = page_entries left @ moved)) \<and>
           (levelled lv h st \<and> 0 < n \<and> GetMinSize parent < GetSize parent \<longrightarrow>
              CoalesceOrRedistribute (Suc n) node tx st = Inr (True, UnpinPage pp True st4)))) \<and>
     (idx = 0 \<and> idx + 1 < GetSize parent \<and> \<not> GetMinSize right < GetSize right \<longrightarrow>
        (\<exists>st4 moved.
           entries_at st4 node = [] \<and> entries_at st4 R = page_entries right @ moved \<and>
           map snd moved = map snd (page_entries nd) \<and>
           (IsLeafPage nd \<longrightarrow> moved = page_entries nd) \<and>
           CoalesceOrRedistribute (Suc n) node tx st =
             (case CoalesceOrRedistribute n pp tx st4 of
                Inl e \<Rightarrow> Inl e
              | Inr (del, st5) \<Rightarrow>
                  let st6 = UnpinPage pp True st5 in
                  if del then
                    (if tx then
                       Inr (True, st6\<lparr>deleted_page_set := insert pp (deleted_page_set st6)\<rparr>)
                     else
                       (case DeletePage pp st6 of
                          (False, st7) \<Rightarrow> Inl (AssertionFailed 353)
                        | (True, st7) \<Rightarrow> Inr (True, st7)))
                  else Inr (True, st6)) \<and>
           (\<forall>b st'. CoalesceOrRedistribute (Suc n) node tx st = Inr (b, st') \<longrightarrow>
              b \<and> (levelled lv h st \<longrightarrow>
                     entries_at st' node = [] \<and> entries_at st' R = page_entries right @ moved)) \<and>
           (levelled lv h st \<and> 0 < n \<and> GetMinSize parent < GetSize parent \<longrightarrow>
              CoalesceOrRedistribute (Suc n) node tx st = Inr (True, UnpinPage pp True st4)))) \<and>
     (levelled lv h st \<and> h - lv node < Suc n \<longrightarrow>
        CoalesceOrRedistribute (Suc n) node tx st \<noteq> Inl OutOfFuel)"
proof (intro conjI impI)
  assume h: "idx \<noteq> 0 \<and> GetMinSize left < GetSize left"
  with assms(8) show "\<exists>st'. CoalesceOrRedistribute (Suc n) node tx st = Inr (False, st') \<and>
           entries_at st' node = last (page_entries left) # page_entries nd \<and>
           entries_at st' L = butlast (page_entries left)"
    by (intro redistribute_left_case [OF assms(1-7)]) auto
next
  assume h: "(idx = 0 \<or> \<not> GetMinSize left < GetSize left) \<and>
      idx + 1 < GetSize parent \<and> GetMinSize right < GetSize right"
  with assms(8,9) show "\<exists>st'. CoalesceOrRedistribute (Suc n) node tx st = Inr (False, st') \<and>
           entries_at st' node = page_entries nd @ [hd (page_entries right)] \<and>
           entries_at st' R = tl (page_entries right)"
    by (intro redistribute_right_case [OF assms(1-7), where L = L and left = left]) auto
next
  assume h: "idx \<noteq> 0 \<and> \<not> GetMinSize left < GetSize left \<and>
      (idx + 1 < GetSize parent \<longrightarrow> \<not> GetMinSize right < GetSize right)"
  with assms(8,9) show "\<exists>st4 moved.
      entries_at st4 node = [] \<and> entries_at st4 L = page_entries left @ moved \<and>
      map snd moved = map snd (page_entries nd) \<and>
      (IsLeafPage nd \<longrightarrow> moved = page_entries nd) \<and>
      CoalesceOrRedistribute (Suc n) node tx st =
        (case CoalesceOrRedistribute n pp tx st4 of
           Inl e \<Rightarrow> Inl e
         | Inr (del, st5) \<Rightarrow>
             let st6 = UnpinPage pp True st5 in
             if del then
               (if tx then
                  Inr (True, st6\<lparr>deleted_page_set := insert pp (deleted_page_set st6)\<rparr>)
                else
                  (case DeletePage pp st6 of
                     (False, st7) \<Rightarrow> Inl (AssertionFailed 353)
                   | (True, st7) \<Rightarrow> Inr (True, st7)))
             else Inr (True, st6)) \<and>
      (\<forall>b st'. CoalesceOrRedistribute (Suc n) node tx st = Inr (b, st') \<longrightarrow>
         b \<and> (levelled lv h st \<longrightarrow>
                entries_at st' node = [] \<and> entries_at st' L = page_entries left @ moved)) \<and>
      (levelled lv h st \<and> 0 < n \<and> GetMinSize parent < GetSize parent \<longrightarrow>
         CoalesceOrRedistribute (Suc n) node tx st = Inr (True, UnpinPage pp True st4))"
    by (intro merge_left_case [OF assms(1-7), where R = R and right = right]) auto
next
  assume h: "idx = 0 \<and> idx + 1 < GetSize parent \<and> \<not> GetMinSize right < GetSize right"
  with assms(9) show "\<exists>st4 moved.
      entries_at st4 node = [] \<and> entries_at st4 R = page_entries right @ moved \<and>
      map snd moved = map snd (page_entries nd) \<and>
      (IsLeafPage nd \<longrightarrow> moved = page_entries nd) \<and>
      CoalesceOrRedistribute (Suc n) node tx st =
        (case CoalesceOrRedistribute n pp tx st4 of
           Inl e \<Rightarrow> Inl e
         | Inr (del, st5) \<Rightarrow>
             let st6 = UnpinPage pp True st5 in
             if del then
               (if tx then
                  Inr (True, st6\<lparr>deleted_page_set := insert pp (deleted_page_set st6)\<rparr>)
                else
                  (case DeletePage pp st6 of
                     (False, st7) \<Rightarrow> Inl (AssertionFailed 353)
                   | (True, st7) \<Rightarrow> Inr (True, st7)))
             else Inr (True, st6)) \<and>
      (\<forall>b st'. CoalesceOrRedistribute (Suc n) node tx st = Inr (b, st') \<longrightarrow>
         b \<and> (levelled lv h st \<longrightarrow>
                entries_at st' node = [] \<and> entries_at st' R = page_entries right @ moved)) \<and>
      (levelled lv h st \<and> 0 < n \<and> GetMinSize parent < GetSize parent \<longrightarrow>
         CoalesceOrRedistribute (Suc n) node tx st = Inr (True, UnpinPage pp True st4))"
    by (intro merge_right_case [OF assms(1-7)]) auto
next
  assume "levelled lv h st \<and> h - lv node < Suc n"
  then show "CoalesceOrRedistribute (Suc n) node tx st \<noteq> Inl OutOfFuel"
    by (intro CoalesceOrRedistribute_enough_fuel) auto
qed

lemmas example_defs =
  two_leaf_tree_def page_defs pool_defs insert_defs remove_defs Let_def entries_at_def
  page_entries_def

text \<open>
  The cases on variants of \<open>two_leaf_tree\<close>, whose leaves have minimum size 2: the right
  leaf with one entry borrows from a left leaf of three; the left leaf with one entry
  borrows from a right leaf of three; the right leaf merges into a left leaf of two, after
  which the root is left with one child and is replaced by it; the left leaf, which has no
  left sibling, merges into the right leaf of two. In \<open>three_leaf_tree\<close> the middle leaf
  merges into the left one and the root, left with two children, stays.
\<close>

theorem sibling_strategy_witness:
  "(\<exists>st'. CoalesceOrRedistribute (Suc 0) 2 False
            (set_leaf_entries 2 [(5, 50)] two_leaf_tree) = Inr (False, st') \<and>
          entries_at st' 2 = [(3, 30), (5, 50)] \<and> entries_at st' 1 = [(1, 10), (2, 20)]) \<and>
   (\<exists>st'. CoalesceOrRedistribute (Suc 0) 1 True
            (set_leaf_entries 1 [(1, 10)]
               (set_leaf_entries 2 [(4, 40), (5, 50), (6, 60)] two_leaf_tree)) =
            Inr (False, st') \<and>
          entries_at st' 1 = [(1, 10), (4, 40)] \<and> entries_at st' 2 = [(5, 50), (6, 60)]) \<and>
   (\<exists>st'. CoalesceOrRedistribute (Suc (Suc 0)) 2 False
            (set_leaf_entries 1 [(1, 10), (2, 20)]
               (set_leaf_entries 2 [(5, 50)] two_leaf_tree)) = Inr (True, st') \<and>
          entries_at st' 1 = [(1, 10), (2, 20), (5, 50)] \<and> entries_at st' 2 = []) \<and>
   (\<exists>st'. CoalesceOrRedistribute (Suc (Suc 0)) 1 True
            (set_leaf_entries 1 [(1, 10)] two_leaf_tree) = Inr (True, st') \<and>
          entries_at st' 2 = [(4, 40), (5, 50), (1, 10)] \<and> entries_at st' 1 = []) \<and>
   levelled (\<lambda>p. if p = 3 then 1 else 0) 1 (set_leaf_entries 1 [(1, 10)] two_leaf_tree) \<and>
   CoalesceOrRedistribute (Suc (Suc 0)) 1 True
     (set_leaf_entries 1 [(1, 10)] two_leaf_tree) \<noteq> Inl OutOfFuel \<and>
   levelled (\<lambda>p. if p = 3 then 1 else 0) 1 three_leaf_tree \<and>
   (\<exists>st'. CoalesceOrRedistribute (Suc (Suc 0)) 2 False three_leaf_tree = Inr (True, st') \<and>
          entries_at st' 1 = [(1, 10), (2, 20), (4, 40)] \<and> entries_at st' 2 = [] \<and>
          entries_at st' 3 = [(0, 1), (5, 4)])"
proof -
  let ?root = "\<lparr>parent_page_id = INVALID_PAGE_ID, max_size = 5,
                body = Internal [(0, 1), (3, 2)]\<rparr>"
  let ?none = "\<lparr>parent_page_id = 3, max_size = 4, body = Leaf [] 0\<rparr>"
  let ?lv = "\<lambda>p::page_id. if p = 3 then 1 else 0 :: nat"
  let ?fin = "\<lambda>pp tx (r :: error + bool \<times> tree).
                case r of
                  Inl e \<Rightarrow> Inl e
                | Inr (del, st5) \<Rightarrow>
                    let st6 = UnpinPage pp True st5 in
                    if del then
                      (if tx then
                         Inr (True, st6\<lparr>deleted_page_set := insert pp (deleted_page_set st6)\<rparr>)
                       else
                         (case DeletePage pp st6 of
                            (False, st7) \<Rightarrow> Inl (AssertionFailed 353)
                          | (True, st7) \<Rightarrow> Inr (True, st7)))
                    else Inr (True, st6)"
  have left_rich:
    "\<exists>st'. CoalesceOrRedistribute (Suc 0) 2 False
             (set_leaf_entries 2 [(5, 50)] two_leaf_tree) = Inr (False, st') \<and>
           entries_at st' 2 =
             last (page_entries \<lparr>parent_page_id = 3, max_size = 4,
                                 body = Leaf [(1, 10), (2, 20), (3, 30)] 2\<rparr>) #
             page_entries \<lparr>parent_page_id = 3, max_size = 4,
                           body = Leaf [(5, 50)] INVALID_PAGE_ID\<rparr> \<and>
           entries_at st' 1 =
             butlast (page_entries \<lparr>parent_page_id = 3, max_size = 4,
                                    body = Leaf [(1, 10), (2, 20), (3, 30)] 2\<rparr>)"
    by (rule sibling_strategy
          [where parent = ?root and pp = 3 and idx = 1 and R = 0 and right = ?none,
           THEN conjunct1, THEN mp])
       (simp_all add: example_defs)
  have right_rich:
    "\<exists>st'. CoalesceOrRedistribute (Suc 0) 1 True
             (set_leaf_entries 1 [(1, 10)]
                (set_leaf_entries 2 [(4, 40), (5, 50), (6, 60)] two_leaf_tree)) =
             Inr (False, st') \<and>
           entries_at st' 1 =
             page_entries \<lparr>parent_page_id = 3, max_size = 4, body = Leaf [(1, 10)] 2\<rparr> @
             [hd (page_entries \<lparr>parent_page_id = 3, max_size = 4,
                                body = Leaf [(4, 40), (5, 50), (6, 60)] INVALID_PAGE_ID\<rparr>)] \<and>
           entries_at st' 2 =
             tl (page_entries \<lparr>parent_page_id = 3, max_size = 4,
                               body = Leaf [(4, 40), (5, 50), (6, 60)] INVALID_PAGE_ID\<rparr>)"
    by (rule sibling_strategy
          [where parent = ?root and pp = 3 and idx = 0 and L = 0 and left = ?none,
           THEN conjunct2, THEN conjunct1, THEN mp])
       (simp_all add: example_defs)
  let ?st3 = "set_leaf_entries 1 [(1, 10), (2, 20)] (set_leaf_entries 2 [(5, 50)] two_leaf_tree)"
  let ?l3 = "\<lparr>parent_page_id = 3, max_size = 4, body = Leaf [(1, 10), (2, 20)] 2\<rparr>"
  let ?n3 = "\<lparr>parent_page_id = 3, max_size = 4, body = Leaf [(5, 50)] INVALID_PAGE_ID\<rparr>"
  have merge_left:
    "\<exists>st4 moved.
       entries_at st4 2 = [] \<and> entries_at st4 1 = page_entries ?l3 @ moved \<and>
       map snd moved = map snd (page_entries ?n3) \<and>
       (IsLeafPage ?n3 \<longrightarrow> moved = page_entries ?n3) \<and>
       CoalesceOrRedistribute (Suc (Suc 0)) 2 False ?st3 =
         ?fin 3 False (CoalesceOrRedistribute (Suc 0) 3 False st4) \<and>
       (\<forall>b st'. CoalesceOrRedistribute (Suc (Suc 0)) 2 False ?st3 = Inr (b, st') \<longrightarrow>
          b \<and> (levelled ?lv 1 ?st3 \<longrightarrow>
                 entries_at st' 2 = [] \<and> entries_at st' 1 = page_entries ?l3 @ moved)) \<and>
       (levelled ?lv 1 ?st3 \<and> 0 < Suc 0 \<and> GetMinSize ?root < GetSize ?root \<longrightarrow>
          CoalesceOrRedistribute (Suc (Suc 0)) 2 False ?st3 = Inr (True, UnpinPage 3 True st4))"
    by (rule sibling_strategy
          [where parent = ?root and pp = 3 and idx = 1 and R = 0 and right = ?none,
           THEN conjunct2, THEN conjunct2, THEN conjunct1, THEN mp])
       (simp_all add: example_defs)
  let ?st4 = "set_leaf_entries 1 [(1, 10)] two_leaf_tree"
  let ?r4 = "\<lparr>parent_page_id = 3, max_size = 4,
              body = Leaf [(4, 40), (5, 50)] INVALID_PAGE_ID\<rparr>"
  let ?n4 = "\<lparr>parent_page_id = 3, max_size = 4, body = Leaf [(1, 10)] 2\<rparr>"
  have merge_right:
    "\<exists>st4 moved.
       entries_at st4 1 = [] \<and> entries_at st4 2 = page_entries ?r4 @ moved \<and>
       map snd moved = map snd (page_entries ?n4) \<and>
       (IsLeafPage ?n4 \<longrightarrow> moved = page_entries ?n4) \<and>
       CoalesceOrRedistribute (Suc (Suc 0)) 1 True ?st4 =
         ?fin 3 True (CoalesceOrRedistribute (Suc 0) 3 True st4) \<and>
       (\<forall>b st'. CoalesceOrRedistribute (Suc (Suc 0)) 1 True ?st4 = Inr (b, st') \<longrightarrow>
          b \<and> (levelled ?lv 1 ?st4 \<longrightarrow>
                 entries_at st' 1 = [] \<and> entries_at st' 2 = page_entries ?r4 @ moved)) \<and>
       (levelled ?lv 1 ?st4 \<and> 0 < Suc 0 \<and> GetMinSize ?root < GetSize ?root \<longrightarrow>
          CoalesceOrRedistribute (Suc (Suc 0)) 1 True ?st4 = Inr (True, UnpinPage 3 True st4))"
    by (rule sibling_strategy
          [where parent = ?root and pp = 3 and idx = 0 and L = 0 and left = ?none,
           THEN conjunct2, THEN conjunct2, THEN conjunct2, THEN conjunct1, THEN mp])
       (simp_all add: example_defs)
  have lev: "levelled ?lv 1 ?st4"
    by (simp add: levelled_def children_def example_defs)
  have fuel:
    "CoalesceOrRedistribute (Suc (Suc 0)) 1 True ?st4 \<noteq> Inl OutOfFuel"
    by (rule sibling_strategy
          [where parent = ?root and pp = 3 and idx = 0 and L = 0 and left = ?none
             and R = 2 and right = ?r4 and nd = ?n4 and lv = ?lv and h = 1,
           THEN conjunct2, THEN conjunct2, THEN conjunct2, THEN conjunct2, THEN mp])
       (simp_all add: levelled_def children_def example_defs)
  let ?root3 = "\<lparr>parent_page_id = INVALID_PAGE_ID, max_size = 5,
                 body = Internal [(0, 1), (2, 2), (5, 4)]\<rparr>"
  let ?l5 = "\<lparr>parent_page_id = 3, max_size = 4, body = Leaf [(1, 10), (2, 20)] 2\<rparr>"
  let ?n5 = "\<lparr>parent_page_id = 3, max_size = 4, body = Leaf [(4, 40)] 4\<rparr>"
  let ?r5 = "\<lparr>parent_page_id = 3, max_size = 4,
              body = Leaf [(6, 60), (7, 70)] INVALID_PAGE_ID\<rparr>"
  have lev3: "levelled ?lv 1 three_leaf_tree"
    by (simp add: levelled_def children_def three_leaf_tree_def page_defs)
  have merge_stays:
    "\<exists>st4 moved.
       entries_at st4 2 = [] \<and> entries_at st4 1 = page_entries ?l5 @ moved \<and>
       map snd moved = map snd (page_entries ?n5) \<and>
       (IsLeafPage ?n5 \<longrightarrow> moved = page_entries ?n5) \<and>
       CoalesceOrRedistribute (Suc (Suc 0)) 2 False three_leaf_tree =
         ?fin 3 False (CoalesceOrRedistribute (Suc 0) 3 False st4) \<and>
       (\<forall>b st'. CoalesceOrRedistribute (Suc (Suc 0)) 2 False three_leaf_tree = Inr (b, st') \<longrightarrow>
          b \<and> (levelled ?lv 1 three_leaf_tree \<longrightarrow>
                 entries_at st' 2 = [] \<and> entries_at st' 1 = page_entries ?l5 @ moved)) \<and>
       (levelled ?lv 1 three_leaf_tree \<and> 0 < Suc 0 \<and> GetMinSize ?root3 < GetSize ?root3 \<longrightarrow>
          CoalesceOrRedistribute (Suc (Suc 0)) 2 False three_leaf_tree =
            Inr (True, UnpinPage 3 True st4))"
    by (rule sibling_strategy
          [where parent = ?root3 and pp = 3 and idx = 1 and R = 4 and right = ?r5,
           THEN conjunct2, THEN conjunct2, THEN conjunct1, THEN mp])
       (simp_all add: three_leaf_tree_def page_defs ValueIndex_def ValueAt_def)
  from left_rich right_rich merge_left merge_right lev fuel lev3 merge_stays show ?thesis
    by (simp (no_asm) add: example_defs levelled_def children_def three_leaf_tree_def)
qed

subsection \<open>Persisting the root\<close>

lemma unchanged_root_refl [simp]: "unchanged_root st st"
  by (simp add: unchanged_root_def)

lemma unchanged_root_trans:
  "unchanged_root a b \<Longrightarrow> unchanged_root b c \<Longrightarrow> unchanged_root a c"
  by (simp add: unchanged_root_def)

lemma header_follows_refl [simp]: "header_follows st st"
  by (simp add: header_follows_def)

lemma unchanged_follows: "unchanged_root st st' \<Longrightarrow> header_follows st st'"
  by (simp add: unchanged_root_def header_follows_def)

lemma header_follows_trans:
  assumes "header_follows a b" and "header_follows b c"
  shows "header_follows a c"
proof -
  from assms(1) obtain h1 where h1: "header b = header a @ h1" "list_all is_update h1"
    "if h1 = [] then root_page_id b = root_page_id a else last h1 = UpdateRecord (root_page_id b)"
    by (auto simp add: header_follows_def)
  from assms(2) obtain h2 where h2: "header c = header b @ h2" "list_all is_update h2"
    "if h2 = [] then root_page_id c = root_page_id b else last h2 = UpdateRecord (root_page_id c)"
    by (auto simp add: header_follows_def)
  have "header c = header a @ (h1 @ h2)" using h1(1) h2(1) by simp
  moreover have "list_all is_update (h1 @ h2)" using h1(2) h2(2) by simp
  moreover have "if h1 @ h2 = [] then root_page_id c = root_page_id a
                 else last (h1 @ h2) = UpdateRecord (root_page_id c)"
    using h1(3) h2(3) by (auto split: if_splits)
  ultimately show ?thesis unfolding header_follows_def by blast
qed

lemma follows_unchanged:
  "header_follows a b \<Longrightarrow> unchanged_root b c \<Longrightarrow> header_follows a c"
  using header_follows_trans unchanged_follows by blast

lemma unchanged_then_follows:
  "unchanged_root a b \<Longrightarrow> header_follows b c \<Longrightarrow> header_follows a c"
  using header_follows_trans unchanged_follows by blast

lemma unchanged_prims [simp]:
  "unchanged_root st (pin p st)"
  "unchanged_root st (UnpinPage p d st)"
  "unchanged_root st (lockFor m p st)"
  "unchanged_root st (unlockFor m p st)"
  "unchanged_root st (AddIntoPageSet p st)"
  "unchanged_root st (SetParentPageId c p st)"
  "unchanged_root st (set_leaf_entries p es st)"
  "unchanged_root st (set_internal_entries p es' st)"
  "unchanged_root st (set_parent_key p c ko st)"
  "unchanged_root st (Init_leaf p q st)"
  "unchanged_root st (Init_internal p q st)"
  "unchanged_root st (PopulateNewRoot p a k b st)"
  "unchanged_root st (snd (NewPage st))"
  "unchanged_root st (snd (FetchPage p st))"
  "unchanged_root st (snd (GetPage p st))"
  "unchanged_root st (snd (GetInternalPage p st))"
  "unchanged_root st (snd (GetPage_txn p t m st))"
  "unchanged_root st (snd (DeletePage p st))"
  by (auto simp add: unchanged_root_def pool_defs set_leaf_entries_def set_internal_entries_def
      set_parent_key_def Init_leaf_def Init_internal_def PopulateNewRoot_def GetInternalPage_def
      GetPage_txn_def split: option.splits payload.splits list.splits)

lemma unchanged_step: "unchanged_root a b \<Longrightarrow> unchanged_root a (UnpinPage p d b)"
  "unchanged_root a b \<Longrightarrow> unchanged_root a (AddIntoPageSet p b)"
  "unchanged_root a b \<Longrightarrow> unchanged_root a (SetParentPageId c p b)"
  by (simp_all add: unchanged_root_def UnpinPage_def AddIntoPageSet_def SetParentPageId_def split: option.splits)

lemma unchanged_fold_SetParentPageId [simp]:
  "unchanged_root st (fold (\<lambda>c. SetParentPageId c p) cs st)"
proof (induction cs arbitrary: st)
  case Nil
  then show ?case by simp
next
  case (Cons c cs)
  have "unchanged_root st (SetParentPageId c p st)" by simp
  from unchanged_root_trans [OF this Cons.IH] show ?case by simp
qed

lemma unchanged_cong:
  "root_page_id a = root_page_id b \<Longrightarrow> header a = header b \<Longrightarrow>
   unchanged_root a c = unchanged_root b c"
  by (simp add: unchanged_root_def)

lemma release_pages_unchanged:
  "release_pages m d ps st = Inr st' \<Longrightarrow> unchanged_root st st'"
  by (induction ps arbitrary: st)
     (auto simp add: Let_def unchanged_root_def UnpinPage_def unlockFor_def DeletePage_def
        split: if_splits prod.splits)

lemma clearTxnWorkSet_unchanged:
  "clearTxnWorkSet m d st = Inr st' \<Longrightarrow> unchanged_root st st'"
  by (auto simp add: clearTxnWorkSet_def unchanged_root_def split: sum.splits
      dest!: release_pages_unchanged)

lemma release_rule_unchanged:
  "release_rule m btp st = Inr st' \<Longrightarrow> unchanged_root st st'"
  by (auto simp add: release_rule_def split: if_splits dest: clearTxnWorkSet_unchanged)

lemma GetLeafPage_step_unchanged:
  "GetLeafPage_step k t m p st = Inr (q, st') \<Longrightarrow> unchanged_root st st'"
  by (auto simp add: GetLeafPage_step_def GetPage_def FetchPage_def unchanged_root_def
        AddIntoPageSet_def UnpinPage_def lockFor_def pin_def
      split: option.splits sum.splits if_splits dest!: release_rule_unchanged)

lemma GetLeafPage_loop_unchanged:
  "GetLeafPage_loop n k t m p st = Inr (q, st') \<Longrightarrow> unchanged_root st st'"
proof (induction n arbitrary: p st)
  case 0
  then show ?case by simp
next
  case (Suc n)
  then show ?case
    by (auto split: option.splits sum.splits if_splits
        dest!: GetLeafPage_step_unchanged intro: unchanged_root_trans)
qed

lemma GetLeafPage_unchanged:
  "GetLeafPage n k t m st = Inr (q, st') \<Longrightarrow> unchanged_root st st'"
  by (auto simp add: GetLeafPage_def GetPage_def FetchPage_def Let_def unchanged_root_def
        AddIntoPageSet_def lockFor_def pin_def
      split: option.splits sum.splits if_splits dest!: GetLeafPage_loop_unchanged)


lemma MoveHalfTo_unchanged: "unchanged_root st (MoveHalfTo a b st)"
proof -
  have "\<And>s. root_page_id s = root_page_id st \<Longrightarrow> header s = header st \<Longrightarrow>
          unchanged_root st (fold (\<lambda>c. SetParentPageId c b) cs s)" for cs
    using unchanged_fold_SetParentPageId unfolding unchanged_root_def by metis
  then show ?thesis
    by (auto simp add: MoveHalfTo_def unchanged_root_def split: option.splits payload.splits)
qed

lemma Split_unchanged: "Split node st = Inr (q, st') \<Longrightarrow> unchanged_root st st'"
proof -
  assume a: "Split node st = Inr (q, st')"
  then obtain s2 where s2: "st' = MoveHalfTo node q s2" and u: "unchanged_root st s2"
    by (auto simp add: Split_def NewPage_def Let_def unchanged_root_def Init_leaf_def
          Init_internal_def split: list.splits option.splits if_splits)
  from unchanged_root_trans [OF u MoveHalfTo_unchanged] s2 show ?thesis by simp
qed

lemma InsertNodeAfter_unchanged:
  "InsertNodeAfter p a k b st = Inr st' \<Longrightarrow> unchanged_root st st'"
  by (auto simp add: InsertNodeAfter_def split: option.splits)

lemma UpdateRootPageId_follows:
  "root_page_id st' = r \<Longrightarrow> header st' = header st \<Longrightarrow>
   header_follows st (UpdateRootPageId False (st'\<lparr>root_page_id := r'\<rparr>))"
  by (simp add: header_follows_def UpdateRootPageId_def pin_def UnpinPage_def Let_def)

lemma follows_cong:
  "root_page_id a = root_page_id b \<Longrightarrow> header a = header b \<Longrightarrow>
   header_follows a c = header_follows b c"
  by (simp add: header_follows_def)

lemma follows_cong2:
  "root_page_id a = root_page_id b \<Longrightarrow> header a = header b \<Longrightarrow>
   header_follows c a = header_follows c b"
  by (simp add: header_follows_def)

lemma InsertIntoParent_follows:
  "InsertIntoParent n old k new st = Inr st' \<Longrightarrow> header_follows st st'"
proof (induction n arbitrary: old k new st st')
  case 0
  then show ?case by simp
next
  case (Suc n)
  from Suc.prems obtain o' where o': "pages st old = Some o'"
    by (auto split: option.splits)
  show ?case
  proof (cases "parent_page_id o' = INVALID_PAGE_ID")
    case True
    with Suc.prems o' obtain pid rest where f: "fresh st = pid # rest"
      and st': "st' = UnpinPage pid True (PopulateNewRoot pid old k new
                  (SetParentPageId new pid (SetParentPageId old pid
                     (UpdateRootPageId False
                        ((Init_internal pid INVALID_PAGE_ID (snd (NewPage st)))
                           \<lparr>root_page_id := pid\<rparr>)))))"
      by (auto simp add: NewPage_def Let_def split: list.splits)
    have "header_follows st (UpdateRootPageId False
            ((Init_internal pid INVALID_PAGE_ID (snd (NewPage st)))\<lparr>root_page_id := pid\<rparr>))"
      by (rule UpdateRootPageId_follows [OF refl])
         (simp add: Init_internal_def NewPage_def f)
    then show ?thesis
      unfolding st'
      by (intro follows_unchanged [OF _ unchanged_prims(2)] follows_unchanged [OF _ unchanged_prims(12)]
            follows_unchanged [OF _ unchanged_prims(6)])
  next
    case False
    let ?pp = "parent_page_id o'"
    from Suc.prems o' False obtain ip0 st2 ip where
      f: "pages st ?pp = Some ip0"
      and ina: "InsertNodeAfter ?pp old k new (pin ?pp st) = Inr st2"
      and ip: "pages st2 ?pp = Some ip"
      by (auto simp add: FetchPage_def split: option.splits sum.splits)
    have u2: "unchanged_root st st2"
      using unchanged_root_trans [OF unchanged_prims(1) InsertNodeAfter_unchanged [OF ina]] .
    show ?thesis
    proof (cases "GetSize ip > GetMaxSize ip")
      case False
      with Suc.prems o' \<open>parent_page_id o' \<noteq> INVALID_PAGE_ID\<close> f ina ip
      have "st' = UnpinPage ?pp True st2" by (simp add: FetchPage_def)
      then show ?thesis
        using unchanged_follows [OF unchanged_root_trans [OF u2 unchanged_prims(2)]] by simp
    next
      case True
      with Suc.prems o' \<open>parent_page_id o' \<noteq> INVALID_PAGE_ID\<close> f ina ip
      obtain newlp st3 k1 st4 where sp: "Split ?pp st2 = Inr (newlp, st3)"
        and rec: "InsertIntoParent n ?pp k1 newlp st3 = Inr st4"
        and st': "st' = UnpinPage ?pp True (UnpinPage newlp True st4)"
        by (auto simp add: FetchPage_def split: sum.splits option.splits)
      have u3: "unchanged_root st st3"
        using unchanged_root_trans [OF u2 Split_unchanged [OF sp]] .
      have "header_follows st st4"
        using unchanged_then_follows [OF u3 Suc.IH [OF rec]] .
      then show ?thesis
        unfolding st'
        by (intro follows_unchanged [OF _ unchanged_prims(2)])
    qed
  qed
qed

lemma InsertIntoLeaf_split_follows:
  "InsertIntoLeaf_split n lp st = Inr st' \<Longrightarrow> header_follows st st'"
proof -
  assume a: "InsertIntoLeaf_split n lp st = Inr st'"
  then obtain newlp st1 k1 st2 where sp: "Split lp st = Inr (newlp, st1)"
    and ip: "InsertIntoParent n lp k1 newlp st1 = Inr st2"
    and st': "st' = UnpinPage newlp True st2"
    by (auto simp add: InsertIntoLeaf_split_def split: sum.splits option.splits)
  have "header_follows st st2"
    using unchanged_then_follows [OF Split_unchanged [OF sp] InsertIntoParent_follows [OF ip]] .
  then show ?thesis unfolding st' by (intro follows_unchanged [OF _ unchanged_prims(2)])
qed

lemma InsertIntoLeaf_follows:
  assumes "InsertIntoLeaf n k v tx st = Inr (r, st')"
  shows "header_follows st st'"
proof -
  from assms obtain lpo st1 where g: "GetLeafPage n k tx 1 st = Inr (lpo, st1)"
    by (auto simp add: InsertIntoLeaf_def split: if_splits sum.splits)
  have u1: "unchanged_root st st1" by (rule GetLeafPage_unchanged [OF g])
  show ?thesis
  proof (cases lpo)
    case None
    with assms g have "st' = st1" by (auto simp add: InsertIntoLeaf_def split: if_splits)
    then show ?thesis using unchanged_follows [OF u1] by simp
  next
    case (Some lp)
    with assms g obtain leaf st3 st4 where
      leaf: "pages st1 lp = Some leaf"
      and s3: "(if GetMaxSize leaf < int (length (leaf_Insert k v (leaf_entries leaf)))
                then InsertIntoLeaf_split n lp
                       (set_leaf_entries lp (leaf_Insert k v (leaf_entries leaf)) st1)
                else Inr (set_leaf_entries lp (leaf_Insert k v (leaf_entries leaf)) st1)) = Inr st3"
      and s4: "(if tx then clearTxnWorkSet 1 True st3 else Inr (UnpinPage lp True st3)) = Inr st4"
      and st': "st' = st4"
      by (auto simp add: InsertIntoLeaf_def Let_def split: if_splits sum.splits option.splits)
    let ?s2 = "set_leaf_entries lp (leaf_Insert k v (leaf_entries leaf)) st1"
    have u2: "unchanged_root st ?s2" using unchanged_root_trans [OF u1 unchanged_prims(7)] .
    have f3: "header_follows st st3"
      using s3 unchanged_then_follows [OF u2 InsertIntoLeaf_split_follows] unchanged_follows [OF u2]
      by (auto split: if_splits)
    have "unchanged_root st3 st4"
      using s4 clearTxnWorkSet_unchanged by (auto split: if_splits)
    from follows_unchanged [OF f3 this] show ?thesis by (simp add: st')
  qed
qed

lemma AdjustRoot_follows:
  "AdjustRoot r st = Inr (b, st') \<Longrightarrow> header_follows st st'"
proof -
  assume a: "AdjustRoot r st = Inr (b, st')"
  then obtain p where p: "pages st r = Some p" by (auto simp add: AdjustRoot_def split: option.splits)
  consider (empty) "st' = UpdateRootPageId False (st\<lparr>root_page_id := INVALID_PAGE_ID\<rparr>)"
    | (promote) c s1 where "st' = UnpinPage c True (UpdateRootPageId False
          (SetParentPageId c INVALID_PAGE_ID (s1\<lparr>root_page_id := c\<rparr>)))"
        "unchanged_root st s1"
    | (same) "st' = st"
    using a p
    by (auto simp add: AdjustRoot_def Let_def GetPage_def FetchPage_def
        split: if_splits list.splits option.splits)
  then show ?thesis
  proof cases
    case empty
    then show ?thesis using UpdateRootPageId_follows [of st _ st] by simp
  next
    case (promote c s1)
    have "header_follows st (UpdateRootPageId False
            (SetParentPageId c INVALID_PAGE_ID (s1\<lparr>root_page_id := c\<rparr>)))"
      using promote(2)
      by (auto simp add: header_follows_def unchanged_root_def UpdateRootPageId_def pin_def
          UnpinPage_def Let_def SetParentPageId_def split: option.splits)
    then show ?thesis unfolding promote(1) by (intro follows_unchanged [OF _ unchanged_prims(2)])
  next
    case same
    then show ?thesis by simp
  qed
qed

lemma MoveAllTo_unchanged: "MoveAllTo a b i st = Inr st' \<Longrightarrow> unchanged_root st st'"
proof -
  have "\<And>s. root_page_id s = root_page_id st \<Longrightarrow> header s = header st \<Longrightarrow>
          unchanged_root st (fold (\<lambda>c. SetParentPageId c b) cs s)" for cs
    using unchanged_fold_SetParentPageId unfolding unchanged_root_def by metis
  then show "MoveAllTo a b i st = Inr st' \<Longrightarrow> unchanged_root st st'"
    by (auto simp add: MoveAllTo_def unchanged_root_def split: option.splits payload.splits)
qed

lemmas prims_eq =
  unchanged_prims [unfolded unchanged_root_def, THEN conjunct1]
  unchanged_prims [unfolded unchanged_root_def, THEN conjunct2]

lemma MoveFirstToEndOf_unchanged:
  "MoveFirstToEndOf a b st = Inr st' \<Longrightarrow> unchanged_root st st'"
  by (auto simp add: MoveFirstToEndOf_def unchanged_root_def prims_eq
      split: option.splits payload.splits list.splits)

lemma MoveLastToFrontOf_unchanged:
  "MoveLastToFrontOf a b i st = Inr st' \<Longrightarrow> unchanged_root st st'"
  by (auto simp add: MoveLastToFrontOf_def unchanged_root_def prims_eq
      split: option.splits payload.splits if_splits)

lemma Redistribute_unchanged:
  "Redistribute a b i st = Inr st' \<Longrightarrow> unchanged_root st st'"
  by (auto simp add: Redistribute_def split: if_splits
      dest: MoveFirstToEndOf_unchanged MoveLastToFrontOf_unchanged)

lemma parent_Remove_unchanged: "parent_Remove a b st = Inr st' \<Longrightarrow> unchanged_root st st'"
  by (auto simp add: parent_Remove_def split: option.splits)

lemma parent_SetValueAt_unchanged:
  "parent_SetValueAt a b c st = Inr st' \<Longrightarrow> unchanged_root st st'"
  by (auto simp add: parent_SetValueAt_def split: option.splits)

lemma Coalesce_unchanged: "Coalesce a b c i st = Inr (f, st') \<Longrightarrow> unchanged_root st st'"
  by (auto simp add: Coalesce_def unchanged_root_def split: option.splits sum.splits if_splits
      dest!: MoveAllTo_unchanged parent_Remove_unchanged parent_SetValueAt_unchanged)

lemma GetPage_txn_unchanged: "GetPage_txn p t m st = (q, s1) \<Longrightarrow> unchanged_root st s1"
  using unchanged_prims(17) [of st p t m] by simp

lemma look_left_unchanged:
  "look_left a b i t st = Inr (Inl (f, st')) \<Longrightarrow> unchanged_root st st'"
  "look_left a b i t st = Inr (Inr (l, st')) \<Longrightarrow> unchanged_root st st'"
  by (auto simp add: look_left_def unchanged_root_def prims_eq
      split: option.splits sum.splits if_splits prod.splits
      dest!: GetPage_txn_unchanged Redistribute_unchanged)

lemma look_right_unchanged:
  "look_right a b i l0 t st = Inr (Inl (f, st')) \<Longrightarrow> unchanged_root st st'"
  "look_right a b i l0 t st = Inr (Inr (l, st')) \<Longrightarrow> unchanged_root st st'"
  by (auto simp add: look_right_def unchanged_root_def prims_eq
      split: option.splits sum.splits if_splits prod.splits
      dest!: GetPage_txn_unchanged Redistribute_unchanged)

lemma merge_siblings_unchanged:
  "merge_siblings a b l r t st = Inr st' \<Longrightarrow> unchanged_root st st'"
  by (auto simp add: merge_siblings_def unchanged_root_def prims_eq
      split: option.splits sum.splits if_splits prod.splits
      dest!: Coalesce_unchanged)

lemma finish_follows:
  assumes "header_follows st st5"
    and "(let st6 = UnpinPage pp True st5 in
          if del then
            (if tx then Inr (True, st6\<lparr>deleted_page_set := insert pp (deleted_page_set st6)\<rparr>)
             else (case DeletePage pp st6 of
                     (False, st7) \<Rightarrow> Inl (AssertionFailed 353)
                   | (True, st7) \<Rightarrow> Inr (True, st7)))
          else Inr (True, st6)) = Inr (b, st')"
  shows "header_follows st st'"
proof -
  from assms(2) have "root_page_id st' = root_page_id st5 \<and> header st' = header st5"
    by (auto simp add: Let_def UnpinPage_def DeletePage_def split: if_splits)
  then show ?thesis using assms(1) follows_cong2 [of st' st5 st] by simp
qed



lemma CoalesceOrRedistribute_follows:
  "CoalesceOrRedistribute n node tx st = Inr (b, st') \<Longrightarrow> header_follows st st'"
proof (induction n arbitrary: node st b st')
  case 0
  then show ?case by simp
next
  case (Suc n)
  from Suc.prems obtain nd where nd: "pages st node = Some nd"
    by (auto split: option.splits)
  show ?case
  proof (cases "GetSize nd \<ge> GetMinSize nd")
    case True
    with Suc.prems nd show ?thesis by simp
  next
    case small: False
    show ?thesis
    proof (cases "parent_page_id nd = INVALID_PAGE_ID")
      case True
      with Suc.prems nd small show ?thesis by (auto dest: AdjustRoot_follows)
    next
      case False
      let ?pp = "parent_page_id nd"
      from Suc.prems nd small False obtain parent idx where
        p: "pages st ?pp = Some parent" and idx: "ValueIndex parent node = Some idx"
        by (auto simp add: GetInternalPage_def FetchPage_def split: option.splits)
      note eq = CoalesceOrRedistribute_parent [OF nd _ refl False p idx, of n tx]
      from small have sm: "GetSize nd < GetMinSize nd" by simp
      from Suc.prems [unfolded eq [OF sm]]
      show ?thesis
      proof (cases "look_left node ?pp idx tx (pin ?pp st)")
        case (Inl e)
        with Suc.prems [unfolded eq [OF sm]] show ?thesis by simp
      next
        case (Inr x)
        show ?thesis
        proof (cases x)
          case (Inl r)
          with Inr Suc.prems [unfolded eq [OF sm]] have "look_left node ?pp idx tx (pin ?pp st) = Inr (Inl (b, st'))"
            by simp
          from look_left_unchanged(1) [OF this] show ?thesis
            using unchanged_follows unchanged_root_trans unchanged_prims(1) by blast
        next
          case (Inr y)
          obtain l s2 where y: "y = (l, s2)" by (cases y)
          have ll: "look_left node ?pp idx tx (pin ?pp st) = Inr (Inr (l, s2))"
            using \<open>look_left node ?pp idx tx (pin ?pp st) = Inr x\<close> Inr y by simp
          have u2: "unchanged_root st s2"
            using unchanged_root_trans [OF unchanged_prims(1) look_left_unchanged(2) [OF ll]] .
          show ?thesis
          proof (cases "look_right node ?pp idx l tx s2")
            case (Inl e)
            with ll Suc.prems [unfolded eq [OF sm]] show ?thesis by simp
          next
            case (Inr x2)
            show ?thesis
            proof (cases x2)
              case (Inl r)
              with Inr ll Suc.prems [unfolded eq [OF sm]]
              have "look_right node ?pp idx l tx s2 = Inr (Inl (b, st'))" by simp
              from look_right_unchanged(1) [OF this] show ?thesis
                using unchanged_follows unchanged_root_trans u2 by blast
            next
              case (Inr y2)
              obtain r s3 where y2: "y2 = (r, s3)" by (cases y2)
              have lr: "look_right node ?pp idx l tx s2 = Inr (Inr (r, s3))"
                using \<open>look_right node ?pp idx l tx s2 = Inr x2\<close> Inr y2 by simp
              have u3: "unchanged_root st s3"
                using unchanged_root_trans [OF u2 look_right_unchanged(2) [OF lr]] .
              from Suc.prems [unfolded eq [OF sm]] ll lr
              obtain st4 del st5 where ms: "merge_siblings node ?pp l r tx s3 = Inr st4"
                and rec: "CoalesceOrRedistribute n ?pp tx st4 = Inr (del, st5)"
                and fin: "(let st6 = UnpinPage ?pp True st5 in
                    if del then
                      (if tx then Inr (True, st6\<lparr>deleted_page_set := insert ?pp (deleted_page_set st6)\<rparr>)
                       else (case DeletePage ?pp st6 of
                               (False, st7) \<Rightarrow> Inl (AssertionFailed 353)
                             | (True, st7) \<Rightarrow> Inr (True, st7)))
                    else Inr (True, st6)) = Inr (b, st')"
                by (auto split: sum.splits)
              have u4: "unchanged_root st st4"
                using unchanged_root_trans [OF u3 merge_siblings_unchanged [OF ms]] .
              have "header_follows st st5"
                using unchanged_then_follows [OF u4 Suc.IH [OF rec]] .
              from finish_follows [OF this fin] show ?thesis .
            qed
          qed
        qed
      qed
    qed
  qed
qed


lemma Remove_follows:
  assumes "Remove n k tx st = Inr st'"
  shows "header_follows st st'"
proof (cases "IsEmpty st")
  case True
  with assms show ?thesis by (simp add: Remove_def)
next
  case False
  with assms obtain lp st1 where g: "GetLeafPage n k tx 2 st = Inr (Some lp, st1)"
    by (auto simp add: Remove_def split: if_splits sum.splits option.splits)
  have u1: "unchanged_root st st1" by (rule GetLeafPage_unchanged [OF g])
  from assms False g obtain leaf b st3 where leaf: "pages st1 lp = Some leaf"
    and c: "(if int (length (leaf_Remove k (leaf_entries leaf))) < GetMinSize leaf
             then CoalesceOrRedistribute n lp tx
                    (set_leaf_entries lp (leaf_Remove k (leaf_entries leaf)) st1)
             else Inr (False, set_leaf_entries lp (leaf_Remove k (leaf_entries leaf)) st1)) =
            Inr (b, st3)"
    and fin: "(if b \<and> \<not> tx then
                 (case DeletePage lp (UnpinPage lp True st3) of
                    (False, st4) \<Rightarrow> Inl (AssertionFailed 246)
                  | (True, st4) \<Rightarrow> Inr st4)
               else
                 (let st4 = (if b then st3\<lparr>deleted_page_set := insert lp (deleted_page_set st3)\<rparr>
                             else st3)
                  in (case (if tx then clearTxnWorkSet 2 True st4
                            else Inr (UnpinPage lp True st4)) of
                        Inl e \<Rightarrow> Inl e
                      | Inr st5 \<Rightarrow>
                          if tx \<and> page_set st5 \<noteq> [] then Inl (AssertionFailed 255)
                          else Inr st5))) = Inr st'"
    by (auto simp add: Remove_def Let_def split: if_splits sum.splits option.splits)
  let ?s2 = "set_leaf_entries lp (leaf_Remove k (leaf_entries leaf)) st1"
  have u2: "unchanged_root st ?s2" using unchanged_root_trans [OF u1 unchanged_prims(7)] .
  have f3: "header_follows st st3"
    using c unchanged_then_follows [OF u2 CoalesceOrRedistribute_follows] unchanged_follows [OF u2]
    by (auto split: if_splits)
  have "unchanged_root st3 st'"
    using fin
    by (auto simp add: Let_def unchanged_root_def UnpinPage_def DeletePage_def
        split: if_splits sum.splits dest!: clearTxnWorkSet_unchanged)
  from follows_unchanged [OF f3 this] show ?thesis .
qed

lemma StartNewTree_installs:
  assumes "fresh st = pid # rest"
  shows "\<exists>s. StartNewTree fuel k v tx st =
               (case InsertIntoLeaf fuel k v tx s of Inl e \<Rightarrow> Inl e | Inr (r, s') \<Rightarrow> Inr s') \<and>
             fresh s = rest \<and>
             (if root_page_id st = INVALID_PAGE_ID
              then root_page_id s = pid \<and>
                   pages s = (pages st)(pid \<mapsto>
                     \<lparr>parent_page_id = INVALID_PAGE_ID, max_size = leaf_max_size st,
                      body = Leaf [] INVALID_PAGE_ID\<rparr>) \<and>
                   header s = header st @ [InsertRecord pid]
              else root_page_id s = root_page_id st \<and>
                   pages s = (pages st)(pid := None) \<and>
                   header s = header st)"
proof -
  let ?st2 = "UnpinPage pid True (Init_leaf pid INVALID_PAGE_ID (snd (NewPage st)))"
  let ?s = "if root_page_id ?st2 = INVALID_PAGE_ID
            then UpdateRootPageId True (?st2\<lparr>root_page_id := pid\<rparr>)
            else snd (DeletePage pid ?st2)"
  have "StartNewTree fuel k v tx st =
          (case InsertIntoLeaf fuel k v tx ?s of Inl e \<Rightarrow> Inl e | Inr (r, s') \<Rightarrow> Inr s')"
    using assms by (simp add: StartNewTree_def NewPage_def Let_def)
  moreover have "fresh ?s = rest"
    using assms by (simp add: pool_defs Init_leaf_def Let_def)
  moreover have "if root_page_id st = INVALID_PAGE_ID
              then root_page_id ?s = pid \<and>
                   pages ?s = (pages st)(pid \<mapsto>
                     \<lparr>parent_page_id = INVALID_PAGE_ID, max_size = leaf_max_size st,
                      body = Leaf [] INVALID_PAGE_ID\<rparr>) \<and>
                   header ?s = header st @ [InsertRecord pid]
              else root_page_id ?s = root_page_id st \<and>
                   pages ?s = (pages st)(pid := None) \<and>
                   header ?s = header st"
    using assms by (simp add: pool_defs Init_leaf_def Let_def)
  ultimately show ?thesis by blast
qed

lemma Insert_header:
  assumes "Insert fuel k v tx st = Inr (r, st')"
  shows "\<exists>hs. header st' =
                header st @ (if IsEmpty st then [InsertRecord (hd (fresh st))] else []) @ hs \<and>
              list_all is_update hs"
proof (cases "IsEmpty st")
  case False
  with assms have "header_follows st st'"
    by (auto simp add: Insert_def dest: InsertIntoLeaf_follows)
  then show ?thesis using False by (auto simp add: header_follows_def)
next
  case True
  with assms obtain pid rest where f: "fresh st = pid # rest"
    by (auto simp add: Insert_def StartNewTree_def NewPage_def split: list.splits sum.splits)
  from StartNewTree_installs [OF f, of fuel k v tx] True
  obtain s where s: "StartNewTree fuel k v tx st =
      (case InsertIntoLeaf fuel k v tx s of Inl e \<Rightarrow> Inl e | Inr (r, s') \<Rightarrow> Inr s')"
    and h: "header s = header st @ [InsertRecord pid]"
    by (auto simp add: IsEmpty_def)
  from assms True s obtain r' where "InsertIntoLeaf fuel k v tx s = Inr (r', st')"
    by (auto simp add: Insert_def split: sum.splits)
  from InsertIntoLeaf_follows [OF this] show ?thesis
    using True f h by (auto simp add: header_follows_def)
qed

text \<open>
  Claim C7, as the code has it: \<^verbatim>\<open>StartNewTree\<close> throws when the pool has no page;
  otherwise it allocates and initialises a new leaf and unpins it, and
  \<^item> when the root page id is \<^verbatim>\<open>INVALID_PAGE_ID\<close> the compare-and-set installs the new
    leaf as root and the root is persisted with \<^verbatim>\<open>insert_record = true\<close>;
  \<^item> otherwise the new page is deleted and root and header stay as they are;
  then it goes on with \<^verbatim>\<open>InsertIntoLeaf\<close>, as an insertion into a tree that is not empty.
  An \<^verbatim>\<open>Insert\<close> makes a header call with \<^verbatim>\<open>insert_record = true\<close> exactly when it starts
  from an empty tree, be it the first time or after the tree was emptied; every root change
  made by \<^verbatim>\<open>InsertIntoLeaf\<close> (a split of the root) or by \<^verbatim>\<open>Remove\<close> (through \<^verbatim>\<open>AdjustRoot\<close>)
  is persisted with \<^verbatim>\<open>insert_record = false\<close>.
\<close>

theorem root_persistence:
  "(fresh st = [] \<longrightarrow> StartNewTree fuel k v tx st = Inl BadAlloc) \<and>
   (fresh st = pid # rest \<longrightarrow>
      (\<exists>s. StartNewTree fuel k v tx st =
              (case InsertIntoLeaf fuel k v tx s of Inl e \<Rightarrow> Inl e | Inr (r, s') \<Rightarrow> Inr s') \<and>
            fresh s = rest \<and>
            (if root_page_id st = INVALID_PAGE_ID
             then root_page_id s = pid \<and>
                  pages s = (pages st)(pid \<mapsto>
                    \<lparr>parent_page_id = INVALID_PAGE_ID, max_size = leaf_max_size st,
                     body = Leaf [] INVALID_PAGE_ID\<rparr>) \<and>
                  header s = header st @ [InsertRecord pid]
             else root_page_id s = root_page_id st \<and>
                  pages s = (pages st)(pid := None) \<and>
                  header s = header st))) \<and>
   (\<forall>r st'. Insert fuel k v tx st = Inr (r, st') \<longrightarrow>
      (\<exists>hs. header st' =
              header st @ (if IsEmpty st then [InsertRecord (hd (fresh st))] else []) @ hs \<and>
            list_all is_update hs)) \<and>
   (\<forall>r st'. InsertIntoLeaf fuel k v tx st = Inr (r, st') \<longrightarrow> header_follows st st') \<and>
   (\<forall>st'. Remove fuel k tx st = Inr st' \<longrightarrow> header_follows st st')"
  using StartNewTree_installs [of st pid rest fuel k v tx] Insert_header [of fuel k v tx st]
    InsertIntoLeaf_follows [of fuel k v tx st] Remove_follows [of fuel k tx st]
  by (auto simp add: StartNewTree_def NewPage_def)

lemma Remove_one_key_tree:
  "Remove (Suc 0) 1 tx one_key_tree =
     Inr (empty_tree\<lparr>fresh := [2, 3, 4, 5, 6, 7, 8],
                      header := [InsertRecord 1, UpdateRecord INVALID_PAGE_ID]\<rparr>)"
  by (cases tx)
     (simp_all add: one_key_tree_def empty_tree_def page_defs pool_defs insert_defs Let_def
        Remove_def leaf_Remove_def AdjustRoot_def fun_eq_iff)

lemma Insert_emptied_tree:
  "Insert (Suc 0) 1 10 tx
     (empty_tree\<lparr>fresh := [2, 3, 4, 5, 6, 7, 8],
                 header := [InsertRecord 1, UpdateRecord INVALID_PAGE_ID]\<rparr>) =
   Inr (True,
     \<lparr>root_page_id = 2,
      pages = [2 \<mapsto> \<lparr>parent_page_id = INVALID_PAGE_ID, max_size = 4,
                      body = Leaf [(1, 10)] INVALID_PAGE_ID\<rparr>],
      pins = (\<lambda>p. 0), fresh = [3, 4, 5, 6, 7, 8], latch = (\<lambda>p. 0),
      header = [InsertRecord 1, UpdateRecord INVALID_PAGE_ID, InsertRecord 2],
      page_set = [], deleted_page_set = {}, leaf_max_size = 4, internal_max_size = 5\<rparr>)"
  by (cases tx)
     (simp_all add: empty_tree_def page_defs pool_defs insert_defs Let_def fun_eq_iff)

lemma InsertIntoLeaf_full_leaf_tree:
  "InsertIntoLeaf (Suc 0) 5 50 False full_leaf_tree = Inr (True, two_leaf_tree)"
  by (simp add: full_leaf_tree_def two_leaf_tree_def page_defs pool_defs insert_defs Let_def
      fun_eq_iff)

text \<open>
  Without a page \<^verbatim>\<open>StartNewTree\<close> throws; on the empty tree it installs page 1 with an
  inserted record; on \<open>one_key_tree\<close>, where a root is already installed, it deletes the
  page it allocated and changes neither root nor header; the split of the full root leaf and
  the removal of the last key are persisted as updates.
\<close>

theorem root_persistence_witness:
  "StartNewTree (Suc 0) 1 10 False (empty_tree\<lparr>fresh := []\<rparr>) = Inl BadAlloc \<and>
   StartNewTree (Suc 0) 1 10 False empty_tree = Inr one_key_tree \<and>
   header one_key_tree = header empty_tree @ [InsertRecord 1] \<and>
   (\<exists>s'. StartNewTree (Suc 0) 2 20 False one_key_tree = Inr s' \<and>
          header s' = header one_key_tree \<and> root_page_id s' = 1 \<and> pages s' 2 = None) \<and>
   InsertIntoLeaf (Suc 0) 5 50 False full_leaf_tree = Inr (True, two_leaf_tree) \<and>
   header two_leaf_tree = header full_leaf_tree @ [UpdateRecord 3] \<and>
   (\<exists>s'. Remove (Suc 0) 1 False one_key_tree = Inr s' \<and>
          header s' = header one_key_tree @ [UpdateRecord INVALID_PAGE_ID])"
proof -
  have no_page: "StartNewTree (Suc 0) 1 10 False (empty_tree\<lparr>fresh := []\<rparr>) = Inl BadAlloc"
    by (rule root_persistence [THEN conjunct1, THEN mp]) (simp add: empty_tree_def)
  have installed: "\<exists>s. StartNewTree (Suc 0) 1 10 False empty_tree =
              (case InsertIntoLeaf (Suc 0) 1 10 False s of Inl e \<Rightarrow> Inl e | Inr (r, s') \<Rightarrow> Inr s') \<and>
            fresh s = [2, 3, 4, 5, 6, 7, 8] \<and>
            (if root_page_id empty_tree = INVALID_PAGE_ID
             then root_page_id s = 1 \<and>
                  pages s = (pages empty_tree)(1 \<mapsto>
                    \<lparr>parent_page_id = INVALID_PAGE_ID, max_size = leaf_max_size empty_tree,
                     body = Leaf [] INVALID_PAGE_ID\<rparr>) \<and>
                  header s = header empty_tree @ [InsertRecord 1]
             else root_page_id s = root_page_id empty_tree \<and>
                  pages s = (pages empty_tree)(1 := None) \<and>
                  header s = header empty_tree)"
    by (rule root_persistence [THEN conjunct2, THEN conjunct1, THEN mp])
       (simp add: empty_tree_def)
  have lost: "\<exists>s. StartNewTree (Suc 0) 2 20 False one_key_tree =
              (case InsertIntoLeaf (Suc 0) 2 20 False s of Inl e \<Rightarrow> Inl e | Inr (r, s') \<Rightarrow> Inr s') \<and>
            fresh s = [3, 4, 5, 6, 7, 8] \<and>
            (if root_page_id one_key_tree = INVALID_PAGE_ID
             then root_page_id s = 2 \<and>
                  pages s = (pages one_key_tree)(2 \<mapsto>
                    \<lparr>parent_page_id = INVALID_PAGE_ID, max_size = leaf_max_size one_key_tree,
                     body = Leaf [] INVALID_PAGE_ID\<rparr>) \<and>
                  header s = header one_key_tree @ [InsertRecord 2]
             else root_page_id s = root_page_id one_key_tree \<and>
                  pages s = (pages one_key_tree)(2 := None) \<and>
                  header s = header one_key_tree)"
    by (rule root_persistence [THEN conjunct2, THEN conjunct1, THEN mp])
       (simp add: one_key_tree_def)
  note rest = root_persistence [THEN conjunct2, THEN conjunct2]
  note first_insert =
    rest [THEN conjunct1, THEN spec, THEN spec, THEN mp, OF one_key_tree_built [of False]]
  note split_update =
    rest [THEN conjunct2, THEN conjunct1, THEN spec, THEN spec, THEN mp,
          OF InsertIntoLeaf_full_leaf_tree]
  note emptied =
    rest [THEN conjunct2, THEN conjunct2, THEN spec, THEN mp, OF Remove_one_key_tree [of False]]
  from no_page installed lost first_insert split_update emptied show ?thesis
    by (simp (no_asm) add: InsertIntoLeaf_full_leaf_tree Remove_one_key_tree)
       (simp add: empty_tree_def one_key_tree_def full_leaf_tree_def two_leaf_tree_def
          page_defs pool_defs insert_defs Let_def fun_eq_iff)
qed

text \<open>
  Claim C7 says that \<^verbatim>\<open>insert_record\<close> is true on the first installation only and false on
  all later root changes. Inserting key 1 into the empty tree, removing it and inserting it
  again makes three root changes; the third is persisted with \<^verbatim>\<open>insert_record = true\<close> like
  the first.
\<close>

theorem InsertRecord_on_a_later_root_change:
  "\<exists>s1 s2 s3. Insert (Suc 0) 1 10 False empty_tree = Inr (True, s1) \<and>
     Remove (Suc 0) 1 False s1 = Inr s2 \<and>
     Insert (Suc 0) 1 10 False s2 = Inr (True, s3) \<and>
     header s1 = [InsertRecord 1] \<and>
     header s2 = [InsertRecord 1, UpdateRecord INVALID_PAGE_ID] \<and>
     header s3 = [InsertRecord 1, UpdateRecord INVALID_PAGE_ID, InsertRecord 2]"
  by (intro exI conjI, rule one_key_tree_built, rule Remove_one_key_tree,
      rule Insert_emptied_tree)
     (simp_all add: one_key_tree_def empty_tree_def)

end
